theory Spec2Isabelle
  imports Complex_Main
begin

section \<open>Python values and built-ins used by the collector\<close>

text \<open>
  The collector (\<^verbatim>\<open>cadvisor_collector.py\<close>) works on decoded JSON. A decoded value is
  \<open>None\<close>, a bool, an unbounded int, a float, a string, a list or a dict with string keys.
  A finite float is represented by its exact rational value (both signed zeros are the
  value 0: they are falsy and convert to the int 0 alike). A dict is an association
  list in insertion order, looked up with \<open>map_of\<close>. Characters are read as the code
  points below 256.
\<close>

datatype pyfloat = Finite rat | NaN | PosInf | NegInf

datatype pyval =
    PNone
  | PBool bool
  | PInt int
  | PFloat pyfloat
  | PStr string
  | PList "pyval list"
  | PDict "(string \<times> pyval) list"

datatype exn =
    ValueError
  | TypeError
  | AttributeError
  | KeyError
  | IndexError
  | OverflowError
  | RequestError

text \<open>Sequencing of calls that may raise: the first exception ends the computation.\<close>

definition bind :: "exn + 'a \<Rightarrow> ('a \<Rightarrow> exn + 'b) \<Rightarrow> exn + 'b" where
  "bind m f = (case m of Inl e \<Rightarrow> Inl e | Inr v \<Rightarrow> f v)"

text \<open>Truthiness, as \<^verbatim>\<open>if x\<close>, \<^verbatim>\<open>not x\<close> and \<^verbatim>\<open>x or y\<close> test it.\<close>

fun truthy :: "pyval \<Rightarrow> bool" where
  "truthy PNone = False"
| "truthy (PBool b) = b"
| "truthy (PInt i) = (i \<noteq> 0)"
| "truthy (PFloat (Finite q)) = (q \<noteq> 0)"
| "truthy (PFloat f) = True"
| "truthy (PStr s) = (s \<noteq> [])"
| "truthy (PList xs) = (xs \<noteq> [])"
| "truthy (PDict kvs) = (kvs \<noteq> [])"

text \<open>\<^verbatim>\<open>obj.get(key, default)\<close>: only a dict has the method.\<close>

fun py_get :: "pyval \<Rightarrow> string \<Rightarrow> pyval \<Rightarrow> exn + pyval" where
  "py_get (PDict kvs) k d = Inr (case map_of kvs k of None \<Rightarrow> d | Some v \<Rightarrow> v)"
| "py_get v k d = Inl AttributeError"

text \<open>\<^verbatim>\<open>for x in obj\<close>: the elements of a list, the characters of a string, the keys of a
  dict; anything else is not iterable.\<close>

fun py_iter :: "pyval \<Rightarrow> exn + pyval list" where
  "py_iter (PList xs) = Inr xs"
| "py_iter (PStr s) = Inr (map (\<lambda>c. PStr [c]) s)"
| "py_iter (PDict kvs) = Inr (map (\<lambda>kv. PStr (fst kv)) kvs)"
| "py_iter v = Inl TypeError"

text \<open>\<^verbatim>\<open>obj.items()\<close>: only a dict has the method.\<close>

fun py_items :: "pyval \<Rightarrow> exn + (string \<times> pyval) list" where
  "py_items (PDict kvs) = Inr kvs"
| "py_items v = Inl AttributeError"

text \<open>\<^verbatim>\<open>obj[0]\<close>: a dict decoded from JSON has string keys only, so the key 0 is missing.\<close>

fun py_index0 :: "pyval \<Rightarrow> exn + pyval" where
  "py_index0 (PList xs) = (case xs of [] \<Rightarrow> Inl IndexError | x # _ \<Rightarrow> Inr x)"
| "py_index0 (PStr s) = (case s of [] \<Rightarrow> Inl IndexError | c # _ \<Rightarrow> Inr (PStr [c]))"
| "py_index0 (PDict kvs) = Inl KeyError"
| "py_index0 v = Inl TypeError"

text \<open>\<^verbatim>\<open>obj.get(k1) or obj.get(k2) or ...\<close>: the first truthy value, else the last one;
  a later \<^verbatim>\<open>get\<close> is evaluated only when the values before it are falsy.\<close>

fun get_first :: "pyval \<Rightarrow> string list \<Rightarrow> exn + pyval" where
  "get_first obj [] = Inr PNone"
| "get_first obj [k] = py_get obj k PNone"
| "get_first obj (k # ks) =
     bind (py_get obj k PNone) (\<lambda>v. if truthy v then Inr v else get_first obj ks)"

text \<open>\<^verbatim>\<open>x or d\<close> for an already evaluated \<open>d\<close>.\<close>

definition py_or :: "pyval \<Rightarrow> pyval \<Rightarrow> pyval" where
  "py_or x d = (if truthy x then x else d)"

text \<open>
  The parts of the Python runtime and of the libraries that the collector calls and
  that are not modelled here are parameters: parsing a string as an int or a float,
  rounding an int to a float, printing a value (\<^verbatim>\<open>str\<close>, as an f-string does), and
  \<^verbatim>\<open>datetime.timestamp(dateutil.parser.isoparse(ts))\<close>, with \<open>None\<close> where the call raises.
\<close>

record runtime =
  int_of_str :: "string \<Rightarrow> int option"
  float_of_str :: "string \<Rightarrow> pyfloat option"
  float_of_int :: "int \<Rightarrow> pyfloat option"
  str_of :: "pyval \<Rightarrow> string"
  isoparse_timestamp :: "pyval \<Rightarrow> rat option"

text \<open>\<^verbatim>\<open>int(x)\<close>: a float is truncated towards zero.\<close>

definition trunc_rat :: "rat \<Rightarrow> int" where
  "trunc_rat q = (if 0 \<le> q then \<lfloor>q\<rfloor> else \<lceil>q\<rceil>)"

fun py_int :: "runtime \<Rightarrow> pyval \<Rightarrow> exn + int" where
  "py_int rt PNone = Inl TypeError"
| "py_int rt (PBool b) = Inr (if b then 1 else 0)"
| "py_int rt (PInt i) = Inr i"
| "py_int rt (PFloat (Finite q)) = Inr (trunc_rat q)"
| "py_int rt (PFloat NaN) = Inl ValueError"
| "py_int rt (PFloat f) = Inl OverflowError"
| "py_int rt (PStr s) = (case int_of_str rt s of None \<Rightarrow> Inl ValueError | Some i \<Rightarrow> Inr i)"
| "py_int rt (PList xs) = Inl TypeError"
| "py_int rt (PDict kvs) = Inl TypeError"

text \<open>\<^verbatim>\<open>float(x)\<close>.\<close>

fun py_float :: "runtime \<Rightarrow> pyval \<Rightarrow> exn + pyfloat" where
  "py_float rt PNone = Inl TypeError"
| "py_float rt (PBool b) = Inr (Finite (if b then 1 else 0))"
| "py_float rt (PInt i) = (case float_of_int rt i of None \<Rightarrow> Inl OverflowError | Some f \<Rightarrow> Inr f)"
| "py_float rt (PFloat f) = Inr f"
| "py_float rt (PStr s) = (case float_of_str rt s of None \<Rightarrow> Inl ValueError | Some f \<Rightarrow> Inr f)"
| "py_float rt (PList xs) = Inl TypeError"
| "py_float rt (PDict kvs) = Inl TypeError"

text \<open>\<^verbatim>\<open>round(x)\<close> of a float: to the nearest int, a tie to the even one.\<close>

definition py_round :: "rat \<Rightarrow> int" where
  "py_round q =
     (let f = \<lfloor>q\<rfloor>; d = q - of_int f
      in if d < 1 / 2 then f
         else if 1 / 2 < d then f + 1
         else if even f then f else f + 1)"

text \<open>\<^verbatim>\<open>str(n)\<close> of an int.\<close>

function digits :: "int \<Rightarrow> string" where
  "digits n =
     (if n < 10 then [char_of (48 + n)]
      else digits (n div 10) @ [char_of (48 + n mod 10)])"
  by pat_completeness auto
termination
  by (relation "measure nat") auto

definition show_int :: "int \<Rightarrow> string" where
  "show_int i = (if i < 0 then CHR ''-'' # digits (- i) else digits i)"

subsection \<open>String methods\<close>

text \<open>\<^verbatim>\<open>str.isspace\<close> on one character, for the code points below 256.\<close>

definition isspace :: "char \<Rightarrow> bool" where
  "isspace c = ((of_char c :: nat) \<in> {9, 10, 11, 12, 13, 28, 29, 30, 31, 32, 133, 160})"

definition py_strip :: "string \<Rightarrow> string" where
  "py_strip s = rev (dropWhile isspace (rev (dropWhile isspace s)))"

definition py_rstrip :: "char \<Rightarrow> string \<Rightarrow> string" where
  "py_rstrip c s = rev (dropWhile (\<lambda>x. x = c) (rev s))"

definition startswith :: "string \<Rightarrow> string \<Rightarrow> bool" where
  "startswith s p = (take (length p) s = p)"

text \<open>\<^verbatim>\<open>s.split(sep, 1)\<close>: cut at the first occurrence of the (non-empty) separator.\<close>

fun split_first :: "string \<Rightarrow> string \<Rightarrow> (string \<times> string) option" where
  "split_first sep [] = None"
| "split_first sep (c # cs) =
     (if startswith (c # cs) sep then Some ([], drop (length sep) (c # cs))
      else map_option (\<lambda>(a, b). (c # a, b)) (split_first sep cs))"

definition py_split1 :: "string \<Rightarrow> string \<Rightarrow> string list" where
  "py_split1 s sep = (case split_first sep s of None \<Rightarrow> [s] | Some (a, b) \<Rightarrow> [a, b])"

text \<open>\<^verbatim>\<open>s.split("/")[-1]\<close>: what follows the last slash.\<close>

definition last_segment :: "string \<Rightarrow> string" where
  "last_segment s = rev (takeWhile (\<lambda>x. x \<noteq> CHR ''/'') (rev s))"

section \<open>The collector object\<close>

record collector =
  cadvisor_address :: string
  output_path :: string
  interval_seconds :: int
  stop_event :: bool
  write_queue :: "string list"
  seen_samples :: "(string \<times> int) set"

text \<open>\<^verbatim>\<open>__init__\<close>: nothing is validated.\<close>

definition init :: "string \<Rightarrow> string \<Rightarrow> int \<Rightarrow> collector" where
  "init address path interval =
     \<lparr>cadvisor_address = address, output_path = path, interval_seconds = interval,
      stop_event = False, write_queue = [], seen_samples = {}\<rparr>"

subsection \<open>\<^verbatim>\<open>get_cadvisor_base_url\<close>\<close>

text \<open>The method reads \<^verbatim>\<open>self.cadvisor_address\<close> only, which is its argument here.\<close>

definition get_cadvisor_base_url :: "string \<Rightarrow> exn + string" where
  "get_cadvisor_base_url address =
     (let host_value = address in
      if host_value = [] then Inl ValueError
      else
        let host_value = py_strip host_value;
            base = (if startswith host_value ''http://'' \<or> startswith host_value ''https://''
                    then host_value
                    else ''http://'' @ host_value);
            base = (if CHR '':'' \<notin> set (last (py_split1 base ''//''))
                    then base @ '':8080''
                    else base)
        in Inr (py_rstrip CHR ''/'' base))"


subsection \<open>\<^verbatim>\<open>extract_filesystem_counters\<close>\<close>

type_synonym totals = "int \<times> int \<times> int \<times> int"

text \<open>
  One pass of the loop body for one \<^verbatim>\<open>fs_entry\<close>. The four \<^verbatim>\<open>get\<close> chains are
  outside the \<^verbatim>\<open>try\<close>; the four additions are inside it, in this order, and the
  first \<^verbatim>\<open>int\<close> that raises ends the pass (\<^verbatim>\<open>except Exception: continue\<close>) with the
  totals as they are by then.
\<close>

definition fs_entry_step :: "runtime \<Rightarrow> totals \<Rightarrow> pyval \<Rightarrow> exn + totals" where
  "fs_entry_step rt t fs_entry =
     (case t of (total_reads, total_writes, total_read_bytes, total_write_bytes) \<Rightarrow>
      bind (get_first fs_entry [''reads'', ''readsCompleted'']) (\<lambda>reads_value.
      bind (get_first fs_entry [''writes'', ''writesCompleted'']) (\<lambda>writes_value.
      bind (get_first fs_entry [''readBytes'', ''readbytes'', ''read_bytes'']) (\<lambda>read_bytes_value.
      bind (get_first fs_entry [''writeBytes'', ''writebytes'', ''write_bytes'']) (\<lambda>write_bytes_value.
        Inr (case py_int rt (py_or reads_value (PInt 0)) of
               Inl e \<Rightarrow> (total_reads, total_writes, total_read_bytes, total_write_bytes)
             | Inr r \<Rightarrow>
          (case py_int rt (py_or writes_value (PInt 0)) of
               Inl e \<Rightarrow> (total_reads + r, total_writes, total_read_bytes, total_write_bytes)
             | Inr w \<Rightarrow>
          (case py_int rt (py_or read_bytes_value (PInt 0)) of
               Inl e \<Rightarrow> (total_reads + r, total_writes + w, total_read_bytes, total_write_bytes)
             | Inr rb \<Rightarrow>
          (case py_int rt (py_or write_bytes_value (PInt 0)) of
               Inl e \<Rightarrow> (total_reads + r, total_writes + w, total_read_bytes + rb,
                         total_write_bytes)
             | Inr wb \<Rightarrow> (total_reads + r, total_writes + w, total_read_bytes + rb,
                         total_write_bytes + wb))))))))))"

fun fs_loop :: "runtime \<Rightarrow> totals \<Rightarrow> pyval list \<Rightarrow> exn + totals" where
  "fs_loop rt t [] = Inr t"
| "fs_loop rt t (fs_entry # rest) = bind (fs_entry_step rt t fs_entry) (\<lambda>t'. fs_loop rt t' rest)"

definition extract_filesystem_counters :: "runtime \<Rightarrow> pyval \<Rightarrow> exn + totals" where
  "extract_filesystem_counters rt sample =
     bind (get_first sample [''filesystem'', ''fs'']) (\<lambda>v.
     bind (py_iter (py_or v (PList []))) (\<lambda>filesystem_list.
       fs_loop rt (0, 0, 0, 0) filesystem_list))"

subsection \<open>\<^verbatim>\<open>collect_once\<close>\<close>

text \<open>
  Lines 116 to 135: the metrics of one sample and its CSV line. Every \<^verbatim>\<open>get\<close>,
  \<^verbatim>\<open>int\<close> and \<^verbatim>\<open>float\<close> here is outside any \<^verbatim>\<open>try\<close>.
\<close>

definition comma :: "string list \<Rightarrow> string" where
  "comma cols = concat (map (\<lambda>c. c @ '','') (butlast cols)) @ last cols"

definition build_line ::
  "runtime \<Rightarrow> int \<Rightarrow> int \<Rightarrow> pyval \<Rightarrow> pyval \<Rightarrow> pyval \<Rightarrow> exn + string" where
  "build_line rt collection_timestamp sample_ts service_name image_name s =
     bind (py_get s ''cpu'' (PDict [])) (\<lambda>cpu.
     bind (py_get cpu ''usage'' (PDict [])) (\<lambda>usage.
     bind (py_get usage ''total'' (PFloat (Finite 0))) (\<lambda>total.
     bind (py_float rt total) (\<lambda>cpu_total.
     bind (py_get s ''memory'' (PDict [])) (\<lambda>memory.
     bind (py_get memory ''usage'' (PInt 0)) (\<lambda>usage.
     bind (py_int rt usage) (\<lambda>mem_usage.
     bind (py_get s ''memory'' (PDict [])) (\<lambda>memory.
     bind (py_get memory ''limit'' (PInt 0)) (\<lambda>limit.
     bind (py_int rt limit) (\<lambda>mem_limit.
     bind (extract_filesystem_counters rt s) (\<lambda>counters.
     case counters of (reads_count, writes_count, read_bytes, write_bytes) \<Rightarrow>
     bind (py_get s ''network'' (PDict [])) (\<lambda>network.
     let net = py_or network (PDict []) in
     bind (py_get net ''rx_bytes'' (PInt 0)) (\<lambda>v.
     bind (py_int rt v) (\<lambda>rx_bytes.
     bind (py_get net ''tx_bytes'' (PInt 0)) (\<lambda>v.
     bind (py_int rt v) (\<lambda>tx_bytes.
     bind (py_get net ''rx_packets'' (PInt 0)) (\<lambda>v.
     bind (py_int rt v) (\<lambda>rx_packets.
     bind (py_get net ''tx_packets'' (PInt 0)) (\<lambda>v.
     bind (py_int rt v) (\<lambda>tx_packets.
       Inr (comma
         [show_int collection_timestamp, show_int sample_ts, str_of rt service_name,
          str_of rt image_name, str_of rt (PFloat cpu_total), show_int mem_usage,
          show_int mem_limit, show_int reads_count, show_int writes_count,
          show_int read_bytes, show_int write_bytes, show_int rx_bytes, show_int tx_bytes,
          show_int rx_packets, show_int tx_packets] @ [CHR 0x0A])))))))))))))))))))))"

text \<open>
  The body of \<^verbatim>\<open>for s in stats_list\<close> (lines 103 to 136). The result is the exception
  that leaves the loop, if any, and the collector as the body left it: what was added
  to \<^verbatim>\<open>seen_samples\<close> and \<^verbatim>\<open>write_queue\<close> before a raise stays.
\<close>

definition sample_step ::
  "runtime \<Rightarrow> int \<Rightarrow> string \<Rightarrow> pyval \<Rightarrow> pyval \<Rightarrow> collector \<Rightarrow> pyval
   \<Rightarrow> exn option \<times> collector" where
  "sample_step rt collection_timestamp container_id service_name image_name self s =
     (case py_get s ''timestamp'' PNone of
        Inl e \<Rightarrow> (Some e, self)
      | Inr ts \<Rightarrow>
          if \<not> truthy ts then (None, self)
          else
            (case isoparse_timestamp rt ts of
               None \<Rightarrow> (None, self)
             | Some t \<Rightarrow>
                 let sample_ts = py_round t;
                     unique_key = (container_id, sample_ts)
                 in if unique_key \<in> seen_samples self then (None, self)
                    else
                      let self = self\<lparr>seen_samples := insert unique_key (seen_samples self)\<rparr>
                      in (case build_line rt collection_timestamp sample_ts service_name
                                 image_name s of
                            Inl e \<Rightarrow> (Some e, self)
                          | Inr line \<Rightarrow>
                              (None, self\<lparr>write_queue := write_queue self @ [line]\<rparr>))))"

fun stats_loop ::
  "runtime \<Rightarrow> int \<Rightarrow> string \<Rightarrow> pyval \<Rightarrow> pyval \<Rightarrow> collector \<Rightarrow> pyval list
   \<Rightarrow> exn option \<times> collector" where
  "stats_loop rt ct cid sn im self [] = (None, self)"
| "stats_loop rt ct cid sn im self (s # rest) =
     (case sample_step rt ct cid sn im self s of
        (Some e, self') \<Rightarrow> (Some e, self')
      | (None, self') \<Rightarrow> stats_loop rt ct cid sn im self' rest)"

text \<open>Lines 97 to 100: what is read from the container entry before its samples.\<close>

definition container_fields :: "pyval \<Rightarrow> exn + (pyval \<times> pyval \<times> pyval)" where
  "container_fields container_entry =
     bind (py_get container_entry ''aliases'' PNone) (\<lambda>v.
     let aliases = py_or v (PList []) in
     bind (if truthy aliases then py_index0 aliases
           else bind (py_get container_entry ''name'' (PStr []))
                  (\<lambda>name. case name of PStr n \<Rightarrow> Inr (PStr (last_segment n))
                               | _ \<Rightarrow> Inl AttributeError)) (\<lambda>service_name.
     bind (py_get container_entry ''stats'' (PList [])) (\<lambda>stats_list.
     bind (py_get container_entry ''spec'' (PDict [])) (\<lambda>spec.
     bind (py_get spec ''image'' (PStr [])) (\<lambda>image_name.
       Inr (service_name, stats_list, image_name))))))"

definition container_step ::
  "runtime \<Rightarrow> int \<Rightarrow> collector \<Rightarrow> string \<times> pyval \<Rightarrow> exn option \<times> collector" where
  "container_step rt collection_timestamp self item =
     (case item of (container_id, container_entry) \<Rightarrow>
      (case container_fields container_entry of
         Inl e \<Rightarrow> (Some e, self)
       | Inr (service_name, stats_list, image_name) \<Rightarrow>
           (case py_iter stats_list of
              Inl e \<Rightarrow> (Some e, self)
            | Inr stats \<Rightarrow>
                stats_loop rt collection_timestamp container_id service_name image_name
                  self stats)))"

fun containers_loop ::
  "runtime \<Rightarrow> int \<Rightarrow> collector \<Rightarrow> (string \<times> pyval) list \<Rightarrow> exn option \<times> collector" where
  "containers_loop rt ct self [] = (None, self)"
| "containers_loop rt ct self (item # rest) =
     (case container_step rt ct self item of
        (Some e, self') \<Rightarrow> (Some e, self')
      | (None, self') \<Rightarrow> containers_loop rt ct self' rest)"

text \<open>
  \<open>now\<close> is the clock reading \<^verbatim>\<open>round(datetime.timestamp(datetime.utcnow()))\<close> and
  \<open>http_get url\<close> the outcome of \<^verbatim>\<open>requests.get\<close>, \<^verbatim>\<open>raise_for_status\<close> and
  \<^verbatim>\<open>response.json()\<close>: the decoded body, or the exception one of them raises.
\<close>

definition collect_once ::
  "runtime \<Rightarrow> int \<Rightarrow> (string \<Rightarrow> exn + pyval) \<Rightarrow> collector \<Rightarrow> exn option \<times> collector" where
  "collect_once rt now http_get self =
     (if stop_event self then (None, self)
      else
        let collection_timestamp = now in
        (case get_cadvisor_base_url (cadvisor_address self) of
           Inl e \<Rightarrow> (Some e, self)
         | Inr base \<Rightarrow>
             (case bind (http_get (base @ ''/api/v1.3/docker/'')) py_items of
                Inl e \<Rightarrow> (Some e, self)
              | Inr docker_data \<Rightarrow> containers_loop rt collection_timestamp self docker_data)))"

subsection \<open>\<^verbatim>\<open>stop\<close> and \<^verbatim>\<open>collect_loop\<close>\<close>

text \<open>\<^verbatim>\<open>stop\<close>: the flag is set, then an empty item is put on the queue.\<close>

definition stop :: "'a collector_scheme \<Rightarrow> 'a collector_scheme" where
  "stop self = self\<lparr>stop_event := True, write_queue := write_queue self @ [[]]\<rparr>"

text \<open>
  One element of the list below is one pass of \<^verbatim>\<open>while not self.stop_event.is_set()\<close>:
  the clock and the endpoint's answer for that pass, and whether the signal handler
  calls \<^verbatim>\<open>stop\<close> during the interruptible sleep that ends it. The result says whether
  the loop has left the \<^verbatim>\<open>while\<close> or is still in it when the list is used up, and
  which exceptions \<^verbatim>\<open>logging.exception\<close> recorded.
\<close>

record tick =
  clock :: int
  endpoint :: "string \<Rightarrow> exn + pyval"
  stop_called :: bool

datatype loop_status = Running | Stopped

fun collect_loop ::
  "runtime \<Rightarrow> tick list \<Rightarrow> exn list \<Rightarrow> collector \<Rightarrow> loop_status \<times> exn list \<times> collector" where
  "collect_loop rt [] logged self = (if stop_event self then Stopped else Running, logged, self)"
| "collect_loop rt (t # ts) logged self =
     (if stop_event self then (Stopped, logged, self)
      else
        (case collect_once rt (clock t) (endpoint t) self of
           (r, self') \<Rightarrow>
             collect_loop rt ts
               (case r of None \<Rightarrow> logged | Some e \<Rightarrow> logged @ [e])
               (if stop_called t then stop self' else self')))"


section \<open>The extractor's totals, as the specification words them\<close>

text \<open>
  The value a device entry gives for one counter: that of the first alias, in priority
  order, whose value is present and truthy, converted by \<^verbatim>\<open>int\<close>; zero when no alias
  has such a value; \<open>None\<close> when the conversion raises.
\<close>

definition counter_value :: "runtime \<Rightarrow> (string \<times> pyval) list \<Rightarrow> string list \<Rightarrow> int option" where
  "counter_value rt d aliases =
     (case find truthy (List.map_filter (map_of d) aliases) of
        None \<Rightarrow> Some 0
      | Some v \<Rightarrow> (case py_int rt v of Inl e \<Rightarrow> None | Inr i \<Rightarrow> Some i))"

text \<open>An entry all of whose four counters convert, with their values.\<close>

definition entry_values :: "runtime \<Rightarrow> pyval \<Rightarrow> totals \<Rightarrow> bool" where
  "entry_values rt fs_entry vals =
     (case fs_entry of
        PDict d \<Rightarrow>
          (case vals of (r, w, rb, wb) \<Rightarrow>
             counter_value rt d [''reads'', ''readsCompleted''] = Some r
           \<and> counter_value rt d [''writes'', ''writesCompleted''] = Some w
           \<and> counter_value rt d [''readBytes'', ''readbytes'', ''read_bytes''] = Some rb
           \<and> counter_value rt d [''writeBytes'', ''writebytes'', ''write_bytes''] = Some wb)
      | _ \<Rightarrow> False)"

section \<open>The deduplication key of a sample\<close>

text \<open>
  The key \<^verbatim>\<open>collect_once\<close> builds for a sample of the container \<open>container_id\<close>, when
  it builds one: the sample has a truthy \<^verbatim>\<open>timestamp\<close> that parses, and the key is the
  container identifier with the timestamp rounded to whole seconds.
\<close>

definition sample_key :: "runtime \<Rightarrow> string \<Rightarrow> pyval \<Rightarrow> (string \<times> int) option" where
  "sample_key rt container_id s =
     (case py_get s ''timestamp'' PNone of
        Inl e \<Rightarrow> None
      | Inr ts \<Rightarrow>
          if truthy ts
          then map_option (\<lambda>t. (container_id, py_round t)) (isoparse_timestamp rt ts)
          else None)"

section \<open>A runtime for the examples\<close>

text \<open>
  The examples below need the runtime's functions at a few values. This runtime agrees
  with CPython 3 and \<^verbatim>\<open>dateutil\<close> on the values the examples pass to it: \<^verbatim>\<open>int\<close> and
  \<^verbatim>\<open>float\<close> of a string of an optional sign and decimal digits (any other string
  used in an example has no digit), \<^verbatim>\<open>float\<close> of a small int, \<^verbatim>\<open>str\<close> of a string,
  an int, \<^verbatim>\<open>None\<close>, a bool or a small integral float, and the epoch seconds of three
  timestamps of 1 January 2024 (UTC).
\<close>

definition digit_of :: "char \<Rightarrow> int option" where
  "digit_of c = (let n = (of_char c :: int) in if 48 \<le> n \<and> n \<le> 57 then Some (n - 48) else None)"

fun decimal :: "int \<Rightarrow> string \<Rightarrow> int option" where
  "decimal acc [] = Some acc"
| "decimal acc (c # cs) =
     (case digit_of c of None \<Rightarrow> None | Some d \<Rightarrow> decimal (10 * acc + d) cs)"

definition ascii_int :: "string \<Rightarrow> int option" where
  "ascii_int s =
     (case s of
        [] \<Rightarrow> None
      | c # cs \<Rightarrow>
          if c = CHR ''-'' then (if cs = [] then None else map_option uminus (decimal 0 cs))
          else if c = CHR ''+'' then (if cs = [] then None else decimal 0 cs)
          else decimal 0 s)"

fun example_str :: "pyval \<Rightarrow> string" where
  "example_str (PStr s) = s"
| "example_str (PInt i) = show_int i"
| "example_str PNone = ''None''"
| "example_str (PBool b) = (if b then ''True'' else ''False'')"
| "example_str (PFloat (Finite q)) = show_int \<lfloor>q\<rfloor> @ ''.0''"
| "example_str v = []"

definition example_time :: "pyval \<Rightarrow> rat option" where
  "example_time ts =
     (if ts = PStr ''2024-01-01T00:00:00Z'' then Some 1704067200
      else if ts = PStr ''2024-01-01T00:00:00.250000Z'' then Some (1704067200 + 1 / 4)
      else if ts = PStr ''2024-01-01T00:00:01Z'' then Some 1704067201
      else None)"

definition example_runtime :: runtime where
  "example_runtime =
     \<lparr>int_of_str = ascii_int,
      float_of_str = (\<lambda>s. map_option (\<lambda>i. Finite (of_int i)) (ascii_int s)),
      float_of_int = (\<lambda>i. Some (Finite (of_int i))),
      str_of = example_str,
      isoparse_timestamp = example_time\<rparr>"


definition example_sample_later :: pyval where
  "example_sample_later =
     PDict [(''timestamp'', PStr ''2024-01-01T00:00:00.250000Z''),
            (''memory'', PDict [(''usage'', PInt 9)])]"

definition example_sample_bad :: pyval where
  "example_sample_bad =
     PDict [(''timestamp'', PStr ''2024-01-01T00:00:00Z''),
            (''memory'', PDict [(''usage'', PStr ''abc'')])]"

definition example_entry :: "pyval list \<Rightarrow> pyval" where
  "example_entry stats =
     PDict [(''aliases'', PList [PStr ''web'']),
            (''spec'', PDict [(''image'', PStr ''nginx'')]),
            (''stats'', PList stats)]"


text \<open>A pass of the loop in which the endpoint cannot be reached and no signal arrives.\<close>

definition example_tick :: tick where
  "example_tick =
     \<lparr>clock = 1704067205, endpoint = (\<lambda>url. Inl RequestError), stop_called = False\<rparr>"

section \<open>How one collection changes the collector\<close>

text \<open>
  \<open>extends self self'\<close>: \<open>self'\<close> has every key of \<open>self\<close>, the same address and stop
  flag, and the queue of \<open>self\<close> followed by new rows, at most one for each new key.
\<close>

definition extends :: "collector \<Rightarrow> collector \<Rightarrow> bool" where
  "extends self self' \<longleftrightarrow>
     seen_samples self \<subseteq> seen_samples self'
   \<and> cadvisor_address self' = cadvisor_address self
   \<and> stop_event self' = stop_event self
   \<and> (\<exists>rows. write_queue self' = write_queue self @ rows
         \<and> (finite (seen_samples self) \<longrightarrow>
              finite (seen_samples self')
            \<and> length rows + card (seen_samples self) \<le> card (seen_samples self')))"

section \<open>The writer thread, \<^verbatim>\<open>stop\<close> and \<^verbatim>\<open>join\<close>\<close>

text \<open>
  The writer thread (\<^verbatim>\<open>container_queue_writer\<close>) runs beside the thread that calls
  \<^verbatim>\<open>stop\<close> and \<^verbatim>\<open>join\<close>. The state of the two is the collector object, the content of
  \<^verbatim>\<open>cadvisor_container.csv\<close>, where each thread is in its code, and the rows the calling
  thread has yet to put on the queue. A step is one action that the other thread
  cannot split: one call on the \<^verbatim>\<open>Queue\<close> or the \<^verbatim>\<open>Event\<close>, both thread-safe, or one
  change of the file, which only the writer touches. The collector thread is left
  out: the rows are those put on the queue before the stop flag is set.

  The writer is at: \<open>WOpen\<close>, before it has created the file (lines 158 to 169);
  \<open>WCheck\<close>, at the test of \<^verbatim>\<open>while not self.stop_event.is_set()\<close>; \<open>WGet\<close>, in
  \<^verbatim>\<open>get(timeout=1.0)\<close>; \<open>WWrite item\<close>, before \<^verbatim>\<open>f.write(item); f.flush()\<close> of the first
  loop; \<open>WDrain\<close>, at \<^verbatim>\<open>get_nowait()\<close>; \<open>WDrainWrite item\<close>, before the write of the
  second loop; \<open>WDone\<close>, returned.

  The caller is at: \<open>CRun\<close>, putting its rows and then setting the stop flag (the
  first statement of \<^verbatim>\<open>stop\<close>); \<open>CStopPut\<close>, before \<^verbatim>\<open>self.write_queue.put("")\<close>; \<open>CJoin\<close>,
  in \<^verbatim>\<open>join\<close>; \<open>CDone\<close>, \<^verbatim>\<open>join\<close> has returned.
\<close>

datatype writer_pc = WOpen | WCheck | WGet | WWrite string | WDrain | WDrainWrite string | WDone

datatype caller_pc = CRun | CStopPut | CJoin | CDone

record system = collector +
  csv :: string
  writer_thread :: writer_pc
  caller :: caller_pc
  pending :: "string list"

definition csv_header :: string where
  "csv_header =
     ''collected,timestamp,service,image,cpu_total,memory_usage,memory_limit,'' @
     ''reads,writes,readBytes,writeBytes,rx_bytes,tx_bytes,rx_packets,tx_packets'' @ [CHR 0x0A]"

text \<open>
  One action of the writer. \<^verbatim>\<open>get(timeout=1.0)\<close> returns the head of the queue when
  there is one and raises \<^verbatim>\<open>Empty\<close> only on an empty queue; \<^verbatim>\<open>open(file_path, "w")\<close>
  discards what the file held.
\<close>

definition container_queue_writer_step :: "system \<Rightarrow> system" where
  "container_queue_writer_step s =
     (case writer_thread s of
        WOpen \<Rightarrow> s\<lparr>csv := csv_header, writer_thread := WCheck\<rparr>
      | WCheck \<Rightarrow> s\<lparr>writer_thread := (if stop_event s then WDrain else WGet)\<rparr>
      | WGet \<Rightarrow>
          (case write_queue s of
             [] \<Rightarrow> s\<lparr>writer_thread := WCheck\<rparr>
           | item # rest \<Rightarrow> s\<lparr>write_queue := rest, writer_thread := WWrite item\<rparr>)
      | WWrite item \<Rightarrow> s\<lparr>csv := csv s @ item, writer_thread := WCheck\<rparr>
      | WDrain \<Rightarrow>
          (case write_queue s of
             [] \<Rightarrow> s\<lparr>writer_thread := WDone\<rparr>
           | item # rest \<Rightarrow> s\<lparr>write_queue := rest, writer_thread := WDrainWrite item\<rparr>)
      | WDrainWrite item \<Rightarrow> s\<lparr>csv := csv s @ item, writer_thread := WDrain\<rparr>
      | WDone \<Rightarrow> s)"

text \<open>One action of the caller; \<open>None\<close> when \<^verbatim>\<open>join\<close> has to wait, or has returned.\<close>

definition caller_step :: "system \<Rightarrow> system option" where
  "caller_step s =
     (case caller s of
        CRun \<Rightarrow>
          (case pending s of
             row # rest \<Rightarrow> Some (s\<lparr>write_queue := write_queue s @ [row], pending := rest\<rparr>)
           | [] \<Rightarrow> Some (s\<lparr>stop_event := True, caller := CStopPut\<rparr>))
      | CStopPut \<Rightarrow> Some (s\<lparr>write_queue := write_queue s @ [[]], caller := CJoin\<rparr>)
      | CJoin \<Rightarrow> (if writer_thread s = WDone then Some (s\<lparr>caller := CDone\<rparr>) else None)
      | CDone \<Rightarrow> None)"

text \<open>The two threads interleave in any order.\<close>

inductive step :: "system \<Rightarrow> system \<Rightarrow> bool" where
  writer: "writer_thread s \<noteq> WDone \<Longrightarrow> step s (container_queue_writer_step s)"
| caller: "caller_step s = Some s' \<Longrightarrow> step s s'"

text \<open>
  \<^verbatim>\<open>start\<close>: the writer thread is created; \<open>old\<close> is what the file holds from an earlier
  run and \<open>rows\<close> what the caller is going to put on the queue.
\<close>

definition start :: "collector \<Rightarrow> string \<Rightarrow> string list \<Rightarrow> system" where
  "start self old rows =
     \<lparr>cadvisor_address = cadvisor_address self, output_path = output_path self,
      interval_seconds = interval_seconds self, stop_event = stop_event self,
      write_queue = write_queue self, seen_samples = seen_samples self,
      csv = old, writer_thread = WOpen, caller = CRun, pending = rows\<rparr>"

text \<open>A schedule, for the examples: \<open>True\<close> lets the writer act, \<open>False\<close> the caller.\<close>

fun run :: "bool list \<Rightarrow> system \<Rightarrow> system" where
  "run [] s = s"
| "run (w # sched) s =
     run sched
       (if w then (if writer_thread s = WDone then s else container_queue_writer_step s)
        else (case caller_step s of None \<Rightarrow> s | Some s' \<Rightarrow> s'))"

text \<open>
  What stays the same while the two threads run: the file, the item the writer
  holds, the queue and the rows still to be put make up the header and all rows, in
  order; the stop flag is set once the caller has put all its rows; the writer is
  in its second loop only after the flag is set; and when the writer has returned the
  queue holds nothing but empty items.
\<close>

fun in_hand :: "writer_pc \<Rightarrow> string" where
  "in_hand (WWrite item) = item"
| "in_hand (WDrainWrite item) = item"
| "in_hand w = []"

definition draining :: "writer_pc \<Rightarrow> bool" where
  "draining w = (case w of WDrain \<Rightarrow> True | WDrainWrite item \<Rightarrow> True | WDone \<Rightarrow> True | _ \<Rightarrow> False)"

definition inv :: "string list \<Rightarrow> system \<Rightarrow> bool" where
  "inv rows s \<longleftrightarrow>
     (if writer_thread s = WOpen then csv_header else csv s) @ in_hand (writer_thread s)
        @ concat (write_queue s) @ concat (pending s) = csv_header @ concat rows
   \<and> (stop_event s \<longleftrightarrow> caller s \<noteq> CRun)
   \<and> (stop_event s \<longrightarrow> pending s = [])
   \<and> (draining (writer_thread s) \<longrightarrow> stop_event s)
   \<and> (writer_thread s = WDone \<longrightarrow> concat (write_queue s) = [])
   \<and> (caller s = CDone \<longrightarrow> writer_thread s = WDone)"

text \<open>
  A bound on the actions still to come once the stop flag is set: two for every item
  on the queue, and what the two threads have left to do.
\<close>

fun writer_weight :: "writer_pc \<Rightarrow> nat" where
  "writer_weight WOpen = 3"
| "writer_weight WCheck = 2"
| "writer_weight WGet = 4"
| "writer_weight (WWrite item) = 3"
| "writer_weight WDrain = 1"
| "writer_weight (WDrainWrite item) = 2"
| "writer_weight WDone = 0"

definition work :: "system \<Rightarrow> nat" where
  "work s =
     2 * length (write_queue s) + writer_weight (writer_thread s)
     + (case caller s of
          CRun \<Rightarrow> 3 * length (pending s) + 5
        | CStopPut \<Rightarrow> 4
        | CJoin \<Rightarrow> 1
        | CDone \<Rightarrow> 0)"

section \<open>Properties of the base URL\<close>

lemma startswith_iff: "startswith s p \<longleftrightarrow> (\<exists>r. s = p @ r)"
  unfolding startswith_def
  by (metis append_eq_conv_conj append_take_drop_id)

lemma after_http: "last (py_split1 (''http://'' @ r) ''//'') = r"
  by (simp add: py_split1_def startswith_def)

lemma after_https: "last (py_split1 (''https://'' @ r) ''//'') = r"
  by (simp add: py_split1_def startswith_def)

lemma rstrip_append:
  assumes "y \<in> set ys" "y \<noteq> c"
  shows "py_rstrip c (xs @ ys) = xs @ py_rstrip c ys"
  using assms unfolding py_rstrip_def
  by (simp add: dropWhile_append1)

lemma rstrip_keeps:
  assumes "y \<in> set ys" "y \<noteq> c"
  shows "y \<in> set (py_rstrip c ys)"
  using assms unfolding py_rstrip_def
  by (induction ys rule: rev_induct) auto

lemma rstrip_last: "ys \<noteq> [] \<Longrightarrow> last ys \<noteq> c \<Longrightarrow> py_rstrip c ys = ys"
  unfolding py_rstrip_def by (induction ys rule: rev_induct) auto

lemma rstrip_idem: "py_rstrip c (py_rstrip c ys) = py_rstrip c ys"
  unfolding py_rstrip_def by (simp add: dropWhile_idem)

lemma strip_id:
  assumes "s \<noteq> []" "\<not> isspace (hd s)" "\<not> isspace (last s)"
  shows "py_strip s = s"
proof -
  have a: "dropWhile isspace s = s"
    using assms by (cases s) auto
  obtain x l where r: "rev s = x # l"
    using assms(1) by (cases "rev s") auto
  then have "x = last s"
    using assms(1) by (metis hd_rev list.sel(1))
  then have "dropWhile isspace (x # l) = x # l"
    using assms(3) by simp
  then have "dropWhile isspace (rev s) = rev s"
    by (simp only: r)
  with a show ?thesis
    by (simp add: py_strip_def)
qed

lemma base_url_char:
  assumes "address \<noteq> []"
  defines "h \<equiv> py_strip address"
  shows "get_cadvisor_base_url address =
     Inr (py_rstrip CHR ''/''
       (if startswith h ''http://'' then h @ (if CHR '':'' \<in> set (drop 7 h) then [] else '':8080'')
        else if startswith h ''https://'' then h @ (if CHR '':'' \<in> set (drop 8 h) then [] else '':8080'')
        else ''http://'' @ h @ (if CHR '':'' \<in> set h then [] else '':8080'')))"
proof -
  have 1: "last (py_split1 h ''//'') = drop 7 h" if "startswith h ''http://''"
  proof -
    from that obtain r where "h = ''http://'' @ r" by (auto simp: startswith_iff)
    then show ?thesis using after_http [of r] by simp
  qed
  have 2: "last (py_split1 h ''//'') = drop 8 h" if "startswith h ''https://''"
  proof -
    from that obtain r where "h = ''https://'' @ r" by (auto simp: startswith_iff)
    then show ?thesis using after_https [of r] by simp
  qed
  have 3: "last (py_split1 (''http://'' @ h) ''//'') = h"
    by (rule after_http)
  have 4: "\<not> (startswith h ''http://'' \<and> startswith h ''https://'')"
    by (auto simp: startswith_iff)
  show ?thesis
    using assms(1) 1 2 3 4
    by (auto simp: get_cadvisor_base_url_def Let_def h_def [symmetric] simp del: append.simps)
qed


lemma rstrip_last_neq: "py_rstrip c ys \<noteq> [] \<Longrightarrow> last (py_rstrip c ys) \<noteq> c"
  unfolding py_rstrip_def
  by (metis (mono_tags, lifting) dropWhile_eq_Nil_conv hd_dropWhile hd_rev rev_is_Nil_conv rev_rev_ident)

lemma rstrip_port: "py_rstrip CHR ''/'' (xs @ '':8080'') = xs @ '':8080''"
  by (rule rstrip_last) simp_all

lemma scheme_shape:
  assumes "CHR '':'' \<in> set r"
  shows "\<exists>r'. py_rstrip CHR ''/'' (sch @ r) = sch @ r' \<and> CHR '':'' \<in> set r' \<and> last r' \<noteq> CHR ''/''"
proof -
  have a: "py_rstrip CHR ''/'' (sch @ r) = sch @ py_rstrip CHR ''/'' r"
    using assms by (intro rstrip_append [of "CHR '':''"]) simp_all
  have b: "CHR '':'' \<in> set (py_rstrip CHR ''/'' r)"
    using assms by (intro rstrip_keeps) simp_all
  then have "py_rstrip CHR ''/'' r \<noteq> []" by auto
  then have "last (py_rstrip CHR ''/'' r) \<noteq> CHR ''/''" by (rule rstrip_last_neq)
  with a b show ?thesis by blast
qed

lemma base_url_shape:
  assumes "get_cadvisor_base_url address = Inr out"
  shows "\<exists>sch r. (sch = ''http://'' \<or> sch = ''https://'') \<and> out = sch @ r
            \<and> CHR '':'' \<in> set r \<and> last r \<noteq> CHR ''/''"
proof -
  define h where "h = py_strip address"
  have ne: "address \<noteq> []"
    using assms by (auto simp: get_cadvisor_base_url_def)
  note c = base_url_char [OF ne, folded h_def]
  consider (http) r where "h = ''http://'' @ r"
    | (https) r where "h = ''https://'' @ r"
    | (none) "\<not> startswith h ''http://''" "\<not> startswith h ''https://''"
    by (auto simp: startswith_iff)
  then show ?thesis
  proof cases
    case (http r)
    then have s: "startswith h ''http://''" "drop 7 h = r"
      by (auto simp: startswith_iff)
    show ?thesis
    proof (cases "CHR '':'' \<in> set r")
      case True
      from scheme_shape [OF True, of "''http://''"] obtain r' where
        "py_rstrip CHR ''/'' (''http://'' @ r) = ''http://'' @ r'" "CHR '':'' \<in> set r'"
        "last r' \<noteq> CHR ''/''" by blast
      then show ?thesis using c assms s True http by auto
    next
      case False
      have "out = ''http://'' @ (r @ '':8080'')"
        using c assms s False http rstrip_port [of h] by simp
      then show ?thesis by (intro exI [of _ "''http://''"] exI [of _ "r @ '':8080''"]) simp
    qed
  next
    case (https r)
    then have s: "\<not> startswith h ''http://''" "startswith h ''https://''" "drop 8 h = r"
      by (auto simp: startswith_iff)
    show ?thesis
    proof (cases "CHR '':'' \<in> set r")
      case True
      from scheme_shape [OF True, of "''https://''"] obtain r' where
        "py_rstrip CHR ''/'' (''https://'' @ r) = ''https://'' @ r'" "CHR '':'' \<in> set r'"
        "last r' \<noteq> CHR ''/''" by blast
      then show ?thesis using c assms s True https by auto
    next
      case False
      have "out = ''https://'' @ (r @ '':8080'')"
        using c assms s False https rstrip_port [of h] by simp
      then show ?thesis by (intro exI [of _ "''https://''"] exI [of _ "r @ '':8080''"]) simp
    qed
  next
    case none
    show ?thesis
    proof (cases "CHR '':'' \<in> set h")
      case True
      from scheme_shape [OF True, of "''http://''"] obtain r' where
        "py_rstrip CHR ''/'' (''http://'' @ h) = ''http://'' @ r'" "CHR '':'' \<in> set r'"
        "last r' \<noteq> CHR ''/''" by blast
      then show ?thesis using c assms none True by auto
    next
      case False
      have "out = ''http://'' @ (h @ '':8080'')"
        using c assms none False rstrip_port [of "''http://'' @ h"] by simp
      then show ?thesis by (intro exI [of _ "''http://''"] exI [of _ "h @ '':8080''"]) simp
    qed
  qed
qed

lemma base_url_idem:
  assumes "get_cadvisor_base_url address = Inr out" "\<not> isspace (last out)"
  shows "get_cadvisor_base_url out = Inr out"
proof -
  from base_url_shape [OF assms(1)] obtain sch r where
    sr: "sch = ''http://'' \<or> sch = ''https://''" "out = sch @ r" "CHR '':'' \<in> set r"
      "last r \<noteq> CHR ''/''"
    by blast
  have ne: "out \<noteq> []" using sr by auto
  have "hd out = CHR ''h''" using sr by auto
  then have "\<not> isspace (hd out)" by (simp add: isspace_def)
  then have st: "py_strip out = out"
    using ne assms(2) by (intro strip_id)
  have r: "r \<noteq> []" using sr by auto
  then have "last out = last r" using sr by simp
  then have rs: "py_rstrip CHR ''/'' out = out"
    using ne sr(4) by (intro rstrip_last) simp_all
  have d: "sch = ''http://'' \<Longrightarrow> startswith out ''http://'' \<and> drop 7 out = r"
      "sch = ''https://'' \<Longrightarrow> \<not> startswith out ''http://'' \<and> startswith out ''https://'' \<and> drop 8 out = r"
    using sr(2) by (auto simp: startswith_iff)
  show ?thesis
    using base_url_char [OF ne] sr(1,3) d rs by (auto simp: st)
qed


lemma strip_subset: "set (py_strip s) \<subseteq> set s"
proof -
  have "set (py_strip s) \<subseteq> set (dropWhile isspace s)"
    unfolding py_strip_def using set_dropWhileD by fastforce
  also have "\<dots> \<subseteq> set s"
    using set_dropWhileD by fastforce
  finally show ?thesis .
qed

lemma rstrip_subset: "set (py_rstrip c s) \<subseteq> set s"
  unfolding py_rstrip_def using set_dropWhileD by fastforce

lemma base_url_chars:
  assumes "get_cadvisor_base_url address = Inr out"
  shows "set out \<subseteq> set address \<union> set ''http://:8080''"
proof -
  have ne: "address \<noteq> []"
    using assms by (auto simp: get_cadvisor_base_url_def)
  define h where "h = py_strip address"
  define x where "x =
       (if startswith h ''http://'' then h @ (if CHR '':'' \<in> set (drop 7 h) then [] else '':8080'')
        else if startswith h ''https://'' then h @ (if CHR '':'' \<in> set (drop 8 h) then [] else '':8080'')
        else ''http://'' @ h @ (if CHR '':'' \<in> set h then [] else '':8080''))"
  have "get_cadvisor_base_url address = Inr (py_rstrip CHR ''/'' x)"
    unfolding x_def h_def by (rule base_url_char [OF ne])
  then have x1: "out = py_rstrip CHR ''/'' x"
    using assms by simp
  have x2: "set x \<subseteq> set (py_strip address) \<union> set ''http://:8080''"
    unfolding x_def h_def by auto
  note x = x1 x2
  have "set out \<subseteq> set x" unfolding x(1) by (rule rstrip_subset)
  with x(2) strip_subset [of address] show ?thesis by blast
qed

text \<open>
  C7, as amended. Normalising the result of a normalisation gives the same string
  whenever that result does not end in a whitespace character, which is the case for
  every address that has no whitespace character in it; and an address that, once its
  surrounding whitespace is stripped, starts with \<^verbatim>\<open>http://\<close> or \<^verbatim>\<open>https://\<close> and has
  a colon behind the scheme is returned as that stripped string with its trailing
  slashes trimmed.
\<close>

theorem normalization_idempotent_amended:
  assumes "get_cadvisor_base_url address = Inr out"
  shows "(\<not> isspace (last out) \<longrightarrow> get_cadvisor_base_url out = Inr out)
       \<and> ((\<forall>c \<in> set address. \<not> isspace c) \<longrightarrow> get_cadvisor_base_url out = Inr out)
       \<and> ((\<exists>r. (py_strip address = ''http://'' @ r \<or> py_strip address = ''https://'' @ r)
              \<and> CHR '':'' \<in> set r)
            \<longrightarrow> out = py_rstrip CHR ''/'' (py_strip address))"
proof (intro conjI impI)
  assume "\<not> isspace (last out)"
  with assms show "get_cadvisor_base_url out = Inr out" by (rule base_url_idem)
next
  assume a: "\<forall>c \<in> set address. \<not> isspace c"
  have "out \<noteq> []" using base_url_shape [OF assms] by auto
  then have "last out \<in> set out" by simp
  then have "last out \<in> set address \<union> set ''http://:8080''"
    using base_url_chars [OF assms] by blast
  then have "\<not> isspace (last out)"
    using a by (auto simp: isspace_def)
  with assms show "get_cadvisor_base_url out = Inr out" by (rule base_url_idem)
next
  assume "\<exists>r. (py_strip address = ''http://'' @ r \<or> py_strip address = ''https://'' @ r)
              \<and> CHR '':'' \<in> set r"
  then obtain r where r: "py_strip address = ''http://'' @ r \<or> py_strip address = ''https://'' @ r"
    "CHR '':'' \<in> set r" by blast
  have ne: "address \<noteq> []"
    using assms by (auto simp: get_cadvisor_base_url_def)
  from r(1) show "out = py_rstrip CHR ''/'' (py_strip address)"
  proof
    assume h: "py_strip address = ''http://'' @ r"
    then have "startswith (py_strip address) ''http://''" "drop 7 (py_strip address) = r"
      by (auto simp: startswith_iff)
    then show ?thesis using base_url_char [OF ne] assms r(2) by simp
  next
    assume h: "py_strip address = ''https://'' @ r"
    then have "\<not> startswith (py_strip address) ''http://''"
      "startswith (py_strip address) ''https://''" "drop 8 (py_strip address) = r"
      by (auto simp: startswith_iff)
    then show ?thesis using base_url_char [OF ne] assms r(2) by simp
  qed
qed

theorem normalization_idempotent_amended_witness:
  "get_cadvisor_base_url ''https://cadvisor:9090//'' = Inr ''https://cadvisor:9090''
   \<and> \<not> isspace (last ''https://cadvisor:9090'')
   \<and> list_all (\<lambda>c. \<not> isspace c) ''https://cadvisor:9090//''
   \<and> py_strip ''https://cadvisor:9090//'' = ''https://'' @ ''cadvisor:9090//''
   \<and> CHR '':'' \<in> set ''cadvisor:9090//''
   \<and> get_cadvisor_base_url ''https://cadvisor:9090'' = Inr ''https://cadvisor:9090''
   \<and> ''https://cadvisor:9090'' = py_rstrip CHR ''/'' (py_strip ''https://cadvisor:9090//'')"
proof -
  have h1: "get_cadvisor_base_url ''https://cadvisor:9090//'' = Inr ''https://cadvisor:9090''"
    by code_simp
  have h2: "\<not> isspace (last ''https://cadvisor:9090'')"
    by code_simp
  have h3: "\<forall>c \<in> set ''https://cadvisor:9090//''. \<not> isspace c"
    by code_simp
  have h4: "py_strip ''https://cadvisor:9090//'' = ''https://'' @ ''cadvisor:9090//''"
    by code_simp
  have h5: "CHR '':'' \<in> set ''cadvisor:9090//''"
    by simp
  have h3': "list_all (\<lambda>c. \<not> isspace c) ''https://cadvisor:9090//''"
    using h3 by (simp only: list_all_iff)
  note t = normalization_idempotent_amended [OF h1]
  from t h3 have c1: "get_cadvisor_base_url ''https://cadvisor:9090'' = Inr ''https://cadvisor:9090''"
    by blast
  from t h4 h5 have c2: "''https://cadvisor:9090'' = py_rstrip CHR ''/'' (py_strip ''https://cadvisor:9090//'')"
    by blast
  from h1 h2 h3' h4 h5 c1 c2 show ?thesis by blast
qed

text \<open>
  The counterexample to C7 as stated: the address \<^verbatim>\<open>"a:1 /"\<close> normalises to
  \<^verbatim>\<open>"http://a:1 "\<close>, which ends in a space, and that normalises to \<^verbatim>\<open>"http://a:1"\<close>.
\<close>

theorem normalization_not_idempotent:
  "get_cadvisor_base_url ''a:1 /'' = Inr ''http://a:1 ''
   \<and> get_cadvisor_base_url ''http://a:1 '' = Inr ''http://a:1''
   \<and> ''http://a:1'' \<noteq> ''http://a:1 ''"
  by code_simp

text \<open>
  C8. The normalizer on an address that has no port and ends in a slash. The colon
  test sees no port, so \<^verbatim>\<open>:8080\<close> is appended to the whole string, behind the slash,
  and the trimming that follows finds no slash at the end: \<^verbatim>\<open>"http://localhost/"\<close> and
  \<^verbatim>\<open>"localhost/"\<close> both give \<^verbatim>\<open>"http://localhost/:8080"\<close>, where the default port on
  the host and the trailing slash trimmed would give \<^verbatim>\<open>"http://localhost:8080"\<close>, which
  is what \<^verbatim>\<open>"localhost"\<close> gives.
\<close>

theorem default_port_behind_trailing_slash:
  "get_cadvisor_base_url ''http://localhost/'' = Inr ''http://localhost/:8080''
   \<and> get_cadvisor_base_url ''localhost/'' = Inr ''http://localhost/:8080''
   \<and> get_cadvisor_base_url ''localhost'' = Inr ''http://localhost:8080''"
  by code_simp

section \<open>Properties of the extractor\<close>

lemma get_first_dict: "\<exists>v. get_first (PDict d) ks = Inr v"
  by (induction "PDict d" ks rule: get_first.induct) (auto simp: bind_def)

lemma get_first_value:
  "get_first (PDict d) ks = Inr v \<Longrightarrow>
     py_or v (PInt 0) =
       (case find truthy (List.map_filter (map_of d) ks) of None \<Rightarrow> PInt 0 | Some x \<Rightarrow> x)"
proof (induction ks arbitrary: v)
  case Nil
  then show ?case by (simp add: py_or_def List.map_filter_simps)
next
  case (Cons k ks)
  show ?case
  proof (cases ks)
    case Nil
    with Cons.prems show ?thesis
      by (auto simp: py_or_def List.map_filter_simps split: option.splits)
  next
    case (Cons k' ks')
    show ?thesis
    proof (cases "map_of d k")
      case None
      with Cons.prems Cons have "get_first (PDict d) ks = Inr v"
        by (simp add: bind_def)
      from Cons.IH [OF this] None show ?thesis
        by (simp add: List.map_filter_simps)
    next
      case (Some x)
      show ?thesis
      proof (cases "truthy x")
        case True
        with Cons.prems Cons Some show ?thesis
          by (simp add: bind_def py_or_def List.map_filter_simps)
      next
        case False
        with Cons.prems Cons Some have "get_first (PDict d) ks = Inr v"
          by (simp add: bind_def)
        from Cons.IH [OF this] Some False show ?thesis
          by (simp add: List.map_filter_simps)
      qed
    qed
  qed
qed

lemma fs_entry_step_dict_eq:
  obtains v1 v2 v3 v4 where
    "get_first (PDict d) [''reads'', ''readsCompleted''] = Inr v1"
    "get_first (PDict d) [''writes'', ''writesCompleted''] = Inr v2"
    "get_first (PDict d) [''readBytes'', ''readbytes'', ''read_bytes''] = Inr v3"
    "get_first (PDict d) [''writeBytes'', ''writebytes'', ''write_bytes''] = Inr v4"
  using get_first_dict by meson

lemma fs_entry_step_cases:
  "fs_entry_step rt (a, b, c, e) (PDict d) =
     Inr (case counter_value rt d [''reads'', ''readsCompleted''] of
            None \<Rightarrow> (a, b, c, e)
          | Some r \<Rightarrow>
         (case counter_value rt d [''writes'', ''writesCompleted''] of
            None \<Rightarrow> (a + r, b, c, e)
          | Some w \<Rightarrow>
         (case counter_value rt d [''readBytes'', ''readbytes'', ''read_bytes''] of
            None \<Rightarrow> (a + r, b + w, c, e)
          | Some rb \<Rightarrow>
         (case counter_value rt d [''writeBytes'', ''writebytes'', ''write_bytes''] of
            None \<Rightarrow> (a + r, b + w, c + rb, e)
          | Some wb \<Rightarrow> (a + r, b + w, c + rb, e + wb)))))"
proof -
  obtain v1 v2 v3 v4 where g:
    "get_first (PDict d) [''reads'', ''readsCompleted''] = Inr v1"
    "get_first (PDict d) [''writes'', ''writesCompleted''] = Inr v2"
    "get_first (PDict d) [''readBytes'', ''readbytes'', ''read_bytes''] = Inr v3"
    "get_first (PDict d) [''writeBytes'', ''writebytes'', ''write_bytes''] = Inr v4"
    by (rule fs_entry_step_dict_eq)
  have c: "counter_value rt d ks =
      (case py_int rt (py_or v (PInt 0)) of Inl e \<Rightarrow> None | Inr i \<Rightarrow> Some i)"
    if "get_first (PDict d) ks = Inr v" for ks v
    unfolding get_first_value [OF that] counter_value_def
    by (auto split: option.splits sum.splits)
  show ?thesis
    unfolding fs_entry_step_def c [OF g(1)] c [OF g(2)] c [OF g(3)] c [OF g(4)]
    using g by (simp add: bind_def split: sum.splits)
qed

lemma fs_entry_step_dict: "\<exists>t'. fs_entry_step rt t (PDict d) = Inr t'"
proof -
  obtain a b c e where t: "t = (a, b, c, e)" by (cases t rule: prod_cases4) blast
  show ?thesis unfolding t by (intro exI) (rule fs_entry_step_cases)
qed

lemma fs_entry_step_values:
  "entry_values rt fs_entry (r, w, rb, wb) \<Longrightarrow>
     fs_entry_step rt (a, b, c, e) fs_entry = Inr (a + r, b + w, c + rb, e + wb)"
  by (cases fs_entry) (simp_all add: entry_values_def fs_entry_step_cases)

lemma fs_entry_step_not_dict:
  "\<forall>d. fs_entry \<noteq> PDict d \<Longrightarrow> fs_entry_step rt t fs_entry = Inl AttributeError"
  by (cases fs_entry; cases t rule: prod_cases4) (auto simp: fs_entry_step_def bind_def)

lemma fs_loop_dicts:
  "\<forall>e \<in> set es. \<exists>d. e = PDict d \<Longrightarrow> \<exists>t'. fs_loop rt t es = Inr t'"
proof (induction es arbitrary: t)
  case Nil
  show ?case by (intro exI) (rule fs_loop.simps(1))
next
  case (Cons e es)
  then obtain d where "e = PDict d" by auto
  then obtain t' where "fs_entry_step rt t e = Inr t'"
    using fs_entry_step_dict by blast
  with Cons show ?case by (simp add: bind_def)
qed

lemma fs_loop_values:
  "list_all2 (entry_values rt) es vals \<Longrightarrow>
     fs_loop rt (a, b, c, e) es =
       Inr (a + sum_list (map fst vals),
            b + sum_list (map (fst \<circ> snd) vals),
            c + sum_list (map (fst \<circ> snd \<circ> snd) vals),
            e + sum_list (map (snd \<circ> snd \<circ> snd) vals))"
proof (induction es vals arbitrary: a b c e rule: list_all2_induct)
  case Nil
  then show ?case by simp
next
  case (Cons x xs y ys)
  obtain r w rb wb where y: "y = (r, w, rb, wb)" by (cases y rule: prod_cases4) blast
  from Cons.hyps(1) have "fs_entry_step rt (a, b, c, e) x = Inr (a + r, b + w, c + rb, e + wb)"
    unfolding y by (rule fs_entry_step_values)
  then show ?case
    by (simp add: bind_def Cons.IH y)
qed

lemma fs_loop_zero:
  assumes "\<forall>x \<in> set es. \<exists>d. x = PDict d
       \<and> counter_value rt d [''reads'', ''readsCompleted''] \<in> {None, Some 0}
       \<and> counter_value rt d [''writes'', ''writesCompleted''] \<in> {None, Some 0}
       \<and> counter_value rt d [''readBytes'', ''readbytes'', ''read_bytes''] \<in> {None, Some 0}
       \<and> counter_value rt d [''writeBytes'', ''writebytes'', ''write_bytes''] \<in> {None, Some 0}"
  shows "fs_loop rt t es = Inr t"
  using assms
proof (induction es)
  case Nil
  then show ?case by simp
next
  case (Cons x es)
  then obtain d where d: "x = PDict d"
       "counter_value rt d [''reads'', ''readsCompleted''] \<in> {None, Some 0}"
       "counter_value rt d [''writes'', ''writesCompleted''] \<in> {None, Some 0}"
       "counter_value rt d [''readBytes'', ''readbytes'', ''read_bytes''] \<in> {None, Some 0}"
       "counter_value rt d [''writeBytes'', ''writebytes'', ''write_bytes''] \<in> {None, Some 0}"
    by auto
  obtain a b c e where t: "t = (a, b, c, e)" by (cases t rule: prod_cases4) blast
  have "fs_entry_step rt t x = Inr t"
    unfolding t d(1) fs_entry_step_cases using d(2-5) by (auto split: option.splits)
  with Cons show ?case by (simp add: bind_def)
qed

lemma extract_dict:
  assumes "get_first (PDict kvs) [''filesystem'', ''fs''] = Inr v"
  shows "extract_filesystem_counters rt (PDict kvs) =
           bind (py_iter (py_or v (PList []))) (fs_loop rt (0, 0, 0, 0))"
  using assms by (simp add: extract_filesystem_counters_def bind_def)

lemma fs_loop_not_dict:
  "\<exists>x \<in> set es. \<forall>d. x \<noteq> PDict d \<Longrightarrow> fs_loop rt t es = Inl AttributeError"
proof (induction es arbitrary: t)
  case Nil
  then show ?case by simp
next
  case (Cons x es)
  show ?case
  proof (cases "\<exists>d. x = PDict d")
    case True
    then obtain t' where "fs_entry_step rt t x = Inr t'"
      using fs_entry_step_dict by blast
    moreover from True Cons.prems have "\<exists>x \<in> set es. \<forall>d. x \<noteq> PDict d" by auto
    ultimately show ?thesis using Cons.IH by (simp add: bind_def)
  next
    case False
    then show ?thesis by (simp add: bind_def fs_entry_step_not_dict)
  qed
qed

text \<open>
  C3, as amended. For a sample that is a dict and whose filesystem value (under
  \<^verbatim>\<open>filesystem\<close>, else \<^verbatim>\<open>fs\<close>) is missing, falsy or a list: when every entry of the list
  is a dict the extractor returns totals, whatever the fields of the entries hold; the
  totals are all zero when no counter of any entry has a value other than one that is
  missing, falsy, zero or not convertible; and when some entry is not a dict the
  extractor raises \<^verbatim>\<open>AttributeError\<close>.
\<close>

theorem extractor_total_on_dict_entries:
  assumes "get_first (PDict kvs) [''filesystem'', ''fs''] = Inr v"
      and "py_or v (PList []) = PList entries"
  shows "((\<forall>x \<in> set entries. \<exists>d. x = PDict d) \<longrightarrow>
            (\<exists>t. extract_filesystem_counters rt (PDict kvs) = Inr t))
       \<and> ((\<forall>x \<in> set entries. \<exists>d. x = PDict d
              \<and> counter_value rt d [''reads'', ''readsCompleted''] \<in> {None, Some 0}
              \<and> counter_value rt d [''writes'', ''writesCompleted''] \<in> {None, Some 0}
              \<and> counter_value rt d [''readBytes'', ''readbytes'', ''read_bytes''] \<in> {None, Some 0}
              \<and> counter_value rt d [''writeBytes'', ''writebytes'', ''write_bytes''] \<in> {None, Some 0}) \<longrightarrow>
            extract_filesystem_counters rt (PDict kvs) = Inr (0, 0, 0, 0))
       \<and> ((\<exists>x \<in> set entries. \<forall>d. x \<noteq> PDict d) \<longrightarrow>
            extract_filesystem_counters rt (PDict kvs) = Inl AttributeError)"
proof -
  have e: "extract_filesystem_counters rt (PDict kvs) = fs_loop rt (0, 0, 0, 0) entries"
    using extract_dict [OF assms(1)] assms(2) by (simp add: bind_def)
  show ?thesis
    unfolding e using fs_loop_dicts fs_loop_zero fs_loop_not_dict by blast
qed

theorem extractor_total_on_dict_entries_witness:
  "get_first (PDict [(''filesystem'', PList [PDict [(''reads'', PStr ''abc'')], PDict []])])
      [''filesystem'', ''fs''] = Inr (PList [PDict [(''reads'', PStr ''abc'')], PDict []])
   \<and> py_or (PList [PDict [(''reads'', PStr ''abc'')], PDict []]) (PList [])
        = PList [PDict [(''reads'', PStr ''abc'')], PDict []]
   \<and> list_all (\<lambda>x. case x of PDict d \<Rightarrow> True | _ \<Rightarrow> False) [PDict [(''reads'', PStr ''abc'')], PDict []]
   \<and> counter_value example_runtime [(''reads'', PStr ''abc'')] [''reads'', ''readsCompleted''] = None
   \<and> counter_value example_runtime [] [''reads'', ''readsCompleted''] = Some 0
   \<and> extract_filesystem_counters example_runtime
          (PDict [(''filesystem'', PList [PDict [(''reads'', PStr ''abc'')], PDict []])])
        = Inr (0, 0, 0, 0)"
proof -
  have h1: "get_first (PDict [(''filesystem'', PList [PDict [(''reads'', PStr ''abc'')], PDict []])])
      [''filesystem'', ''fs''] = Inr (PList [PDict [(''reads'', PStr ''abc'')], PDict []])"
    by (simp add: bind_def)
  have h2: "py_or (PList [PDict [(''reads'', PStr ''abc'')], PDict []]) (PList [])
        = PList [PDict [(''reads'', PStr ''abc'')], PDict []]"
    by (simp add: py_or_def)
  have h3: "list_all (\<lambda>x. case x of PDict d \<Rightarrow> True | _ \<Rightarrow> False)
      [PDict [(''reads'', PStr ''abc'')], PDict []]"
    by simp
  have h4: "counter_value example_runtime [(''reads'', PStr ''abc'')] [''reads'', ''readsCompleted'']
      = None"
    by code_simp
  have h5: "counter_value example_runtime [] [''reads'', ''readsCompleted''] = Some 0"
    by code_simp
  have z: "\<forall>x \<in> set [PDict [(''reads'', PStr ''abc'')], PDict []]. \<exists>d. x = PDict d
     \<and> counter_value example_runtime d [''reads'', ''readsCompleted''] \<in> {None, Some 0}
     \<and> counter_value example_runtime d [''writes'', ''writesCompleted''] \<in> {None, Some 0}
     \<and> counter_value example_runtime d [''readBytes'', ''readbytes'', ''read_bytes''] \<in> {None, Some 0}
     \<and> counter_value example_runtime d [''writeBytes'', ''writebytes'', ''write_bytes''] \<in> {None, Some 0}"
    by (simp add: counter_value_def List.map_filter_simps example_runtime_def ascii_int_def
        digit_of_def)
  from extractor_total_on_dict_entries [OF h1 h2, of example_runtime] z
  have c: "extract_filesystem_counters example_runtime
          (PDict [(''filesystem'', PList [PDict [(''reads'', PStr ''abc'')], PDict []])])
        = Inr (0, 0, 0, 0)"
    by blast
  from h1 h2 h3 h4 h5 c show ?thesis by (intro conjI)
qed

text \<open>
  The counterexample to C3 as stated: a device entry that is not a dict
  (\<^verbatim>\<open>{"filesystem": [1]}\<close>) makes \<^verbatim>\<open>fs_entry.get\<close> raise \<^verbatim>\<open>AttributeError\<close>, and a
  filesystem value that is a number (\<^verbatim>\<open>{"filesystem": 5}\<close>) makes the \<^verbatim>\<open>for\<close> raise
  \<^verbatim>\<open>TypeError\<close>; neither is inside the \<^verbatim>\<open>try\<close>.
\<close>

theorem extractor_raises_on_non_dict_entry:
  "extract_filesystem_counters example_runtime (PDict [(''filesystem'', PList [PInt 1])])
     = Inl AttributeError
   \<and> extract_filesystem_counters example_runtime (PDict [(''filesystem'', PInt 5)])
     = Inl TypeError"
  by code_simp

text \<open>
  C5. The extractor on \<^verbatim>\<open>[{"reads": 3, "writes": "abc", "readBytes": 100}, {"reads": 2}]\<close>:
  \<^verbatim>\<open>int("abc")\<close> raises after the first device's reads were added, so the total of
  reads is 5, where skipping the whole device would give 2.
\<close>

theorem extractor_keeps_counters_before_failure:
  "extract_filesystem_counters example_runtime
     (PDict [(''filesystem'',
        PList [PDict [(''reads'', PInt 3), (''writes'', PStr ''abc''), (''readBytes'', PInt 100)],
               PDict [(''reads'', PInt 2)]])])
   = Inr (5, 0, 0, 0)"
  by code_simp

text \<open>
  C6, as amended. For a sample that is a dict whose filesystem value is missing, falsy
  or a list of dict entries all of whose counters convert: each total is the sum, over
  the entries, of the entry's value for that counter, which is the value of the first
  alias in priority order that is present and truthy, and zero when there is none. The
  entries \<^verbatim>\<open>[{reads:3,writes:1,readBytes:100}, {readsCompleted:2,writeBytes:50}]\<close> give
  5, 1, 100 and 50. An entry with both \<^verbatim>\<open>reads\<close> and \<^verbatim>\<open>readsCompleted\<close> gives the value
  of \<^verbatim>\<open>reads\<close> unless that is 0, and then the value of \<^verbatim>\<open>readsCompleted\<close>.
\<close>

theorem extractor_sums_amended:
  assumes "get_first (PDict kvs) [''filesystem'', ''fs''] = Inr v"
      and "py_or v (PList []) = PList entries"
      and "list_all2 (entry_values rt) entries vals"
  shows "extract_filesystem_counters rt (PDict kvs) =
           Inr (sum_list (map fst vals),
                sum_list (map (fst \<circ> snd) vals),
                sum_list (map (fst \<circ> snd \<circ> snd) vals),
                sum_list (map (snd \<circ> snd \<circ> snd) vals))
       \<and> extract_filesystem_counters rt
           (PDict [(''filesystem'',
              PList [PDict [(''reads'', PInt 3), (''writes'', PInt 1), (''readBytes'', PInt 100)],
                     PDict [(''readsCompleted'', PInt 2), (''writeBytes'', PInt 50)]])])
           = Inr (5, 1, 100, 50)
       \<and> extract_filesystem_counters rt
           (PDict [(''filesystem'',
              PList [PDict [(''reads'', PInt n), (''readsCompleted'', PInt m)]])])
           = Inr (if n \<noteq> 0 then n else m, 0, 0, 0)"
proof -
  have e: "extract_filesystem_counters rt (PDict kvs) = fs_loop rt (0, 0, 0, 0) entries"
    using extract_dict [OF assms(1)] assms(2) by (simp add: bind_def)
  have 1: "extract_filesystem_counters rt (PDict kvs) =
           Inr (sum_list (map fst vals),
                sum_list (map (fst \<circ> snd) vals),
                sum_list (map (fst \<circ> snd \<circ> snd) vals),
                sum_list (map (snd \<circ> snd \<circ> snd) vals))"
    unfolding e using fs_loop_values [OF assms(3), of 0 0 0 0] by simp
  have 2: "extract_filesystem_counters rt
           (PDict [(''filesystem'',
              PList [PDict [(''reads'', PInt 3), (''writes'', PInt 1), (''readBytes'', PInt 100)],
                     PDict [(''readsCompleted'', PInt 2), (''writeBytes'', PInt 50)]])])
           = Inr (5, 1, 100, 50)"
    by (simp add: extract_filesystem_counters_def bind_def py_or_def fs_entry_step_def)
  have 3: "extract_filesystem_counters rt
           (PDict [(''filesystem'',
              PList [PDict [(''reads'', PInt n), (''readsCompleted'', PInt m)]])])
           = Inr (if n \<noteq> 0 then n else m, 0, 0, 0)"
    by (simp add: extract_filesystem_counters_def bind_def py_or_def fs_entry_step_def)
  from 1 2 3 show ?thesis by blast
qed

theorem extractor_sums_amended_witness:
  "get_first
     (PDict [(''fs'',
        PList [PDict [(''reads'', PInt 3), (''writes'', PStr ''1''), (''readBytes'', PInt 100)],
               PDict [(''reads'', PInt 0), (''readsCompleted'', PInt 2), (''writeBytes'', PInt 50)]])])
     [''filesystem'', ''fs'']
   = Inr (PList [PDict [(''reads'', PInt 3), (''writes'', PStr ''1''), (''readBytes'', PInt 100)],
                 PDict [(''reads'', PInt 0), (''readsCompleted'', PInt 2), (''writeBytes'', PInt 50)]])
   \<and> py_or
       (PList [PDict [(''reads'', PInt 3), (''writes'', PStr ''1''), (''readBytes'', PInt 100)],
               PDict [(''reads'', PInt 0), (''readsCompleted'', PInt 2), (''writeBytes'', PInt 50)]])
       (PList [])
     = PList [PDict [(''reads'', PInt 3), (''writes'', PStr ''1''), (''readBytes'', PInt 100)],
              PDict [(''reads'', PInt 0), (''readsCompleted'', PInt 2), (''writeBytes'', PInt 50)]]
   \<and> list_all2 (entry_values example_runtime)
       [PDict [(''reads'', PInt 3), (''writes'', PStr ''1''), (''readBytes'', PInt 100)],
        PDict [(''reads'', PInt 0), (''readsCompleted'', PInt 2), (''writeBytes'', PInt 50)]]
       [(3, 1, 100, 0), (2, 0, 0, 50)]
   \<and> extract_filesystem_counters example_runtime
       (PDict [(''fs'',
          PList [PDict [(''reads'', PInt 3), (''writes'', PStr ''1''), (''readBytes'', PInt 100)],
                 PDict [(''reads'', PInt 0), (''readsCompleted'', PInt 2), (''writeBytes'', PInt 50)]])])
     = Inr (5, 1, 100, 50)"
proof -
  define es where "es =
    [PDict [(''reads'', PInt 3), (''writes'', PStr ''1''), (''readBytes'', PInt 100)],
     PDict [(''reads'', PInt 0), (''readsCompleted'', PInt 2), (''writeBytes'', PInt 50)]]"
  have h1: "get_first (PDict [(''fs'', PList es)]) [''filesystem'', ''fs''] = Inr (PList es)"
    by (simp add: bind_def)
  have h2: "py_or (PList es) (PList []) = PList es"
    by (simp add: py_or_def es_def)
  have h3: "list_all2 (entry_values example_runtime) es [(3, 1, 100, 0), (2, 0, 0, 50)]"
    unfolding es_def
    by (simp add: entry_values_def counter_value_def List.map_filter_simps example_runtime_def
        ascii_int_def digit_of_def)
  from extractor_sums_amended [OF h1 h2 h3]
  have c: "extract_filesystem_counters example_runtime (PDict [(''fs'', PList es)])
      = Inr (5, 1, 100, 50)"
    by simp
  from h1 h2 h3 c show ?thesis unfolding es_def by blast
qed

text \<open>
  The counterexample to C6 as stated: with \<^verbatim>\<open>{"reads": 0, "readsCompleted": 7}\<close> the
  total of reads is 7, the value of the lower-priority alias.
\<close>

theorem extractor_zero_alias_falls_through:
  "extract_filesystem_counters example_runtime
     (PDict [(''filesystem'', PList [PDict [(''reads'', PInt 0), (''readsCompleted'', PInt 7)]])])
   = Inr (7, 0, 0, 0)"
  by code_simp


section \<open>Properties of the collection\<close>

lemma sample_step_seen:
  "sample_key rt cid s = Some k \<Longrightarrow> k \<in> seen_samples self \<Longrightarrow>
     sample_step rt ct cid sn im self s = (None, self)"
  by (auto simp: sample_key_def sample_step_def Let_def split: sum.splits if_splits option.splits)

lemma sample_step_new:
  "sample_key rt cid s = Some k \<Longrightarrow> k \<notin> seen_samples self \<Longrightarrow>
     sample_step rt ct cid sn im self s =
       (case build_line rt ct (snd k) sn im s of
          Inl e \<Rightarrow> (Some e, self\<lparr>seen_samples := insert k (seen_samples self)\<rparr>)
        | Inr line \<Rightarrow>
            (None, self\<lparr>seen_samples := insert k (seen_samples self),
                        write_queue := write_queue self @ [line]\<rparr>))"
  by (auto simp: sample_key_def sample_step_def Let_def split: sum.splits if_splits option.splits)

lemma sample_step_no_key:
  "sample_key rt cid s = None \<Longrightarrow> snd (sample_step rt ct cid sn im self s) = self"
  by (auto simp: sample_key_def sample_step_def Let_def split: sum.splits if_splits option.splits)


lemma extends_refl: "extends self self"
  by (simp add: extends_def)

lemma extends_trans:
  assumes "extends a b" "extends b c"
  shows "extends a c"
proof -
  from assms(1) obtain r1 where 1: "seen_samples a \<subseteq> seen_samples b"
    "cadvisor_address b = cadvisor_address a" "stop_event b = stop_event a"
    "write_queue b = write_queue a @ r1"
    "finite (seen_samples a) \<longrightarrow> finite (seen_samples b)
       \<and> length r1 + card (seen_samples a) \<le> card (seen_samples b)"
    unfolding extends_def by blast
  from assms(2) obtain r2 where 2: "seen_samples b \<subseteq> seen_samples c"
    "cadvisor_address c = cadvisor_address b" "stop_event c = stop_event b"
    "write_queue c = write_queue b @ r2"
    "finite (seen_samples b) \<longrightarrow> finite (seen_samples c)
       \<and> length r2 + card (seen_samples b) \<le> card (seen_samples c)"
    unfolding extends_def by blast
  have "write_queue c = write_queue a @ (r1 @ r2)"
    using 1(4) 2(4) by simp
  moreover have "finite (seen_samples a) \<longrightarrow> finite (seen_samples c)
       \<and> length (r1 @ r2) + card (seen_samples a) \<le> card (seen_samples c)"
    using 1(5) 2(5) by auto
  ultimately show ?thesis
    unfolding extends_def using 1(1-3) 2(1-3) by (intro conjI exI [of _ "r1 @ r2"]) auto
qed

lemma sample_step_extends: "extends self (snd (sample_step rt ct cid sn im self s))"
proof (cases "sample_key rt cid s")
  case None
  then show ?thesis by (simp add: sample_step_no_key extends_refl)
next
  case (Some k)
  show ?thesis
  proof (cases "k \<in> seen_samples self")
    case True
    with Some show ?thesis by (simp add: sample_step_seen extends_refl)
  next
    case False
    have c: "finite (seen_samples self) \<Longrightarrow> card (insert k (seen_samples self)) = Suc (card (seen_samples self))"
      using False by simp
    show ?thesis
      unfolding sample_step_new [OF Some False]
      by (cases "build_line rt ct (snd k) sn im s") (auto simp: extends_def c)
  qed
qed

lemma stats_loop_extends: "extends self (snd (stats_loop rt ct cid sn im self stats))"
proof (induction stats arbitrary: self)
  case Nil
  show ?case by (simp add: extends_refl)
next
  case (Cons s stats)
  obtain r self' where st: "sample_step rt ct cid sn im self s = (r, self')"
    by (cases "sample_step rt ct cid sn im self s")
  have e: "extends self self'"
    using sample_step_extends [of self rt ct cid sn im s] st by simp
  show ?case
  proof (cases r)
    case None
    with st have "snd (stats_loop rt ct cid sn im self (s # stats))
        = snd (stats_loop rt ct cid sn im self' stats)" by simp
    with e Cons.IH [of self'] show ?thesis by (metis extends_trans)
  next
    case (Some x)
    with st e show ?thesis by simp
  qed
qed

lemma container_step_extends: "extends self (snd (container_step rt ct self item))"
  by (auto simp: container_step_def extends_refl stats_loop_extends split: prod.splits sum.splits)

lemma containers_loop_extends: "extends self (snd (containers_loop rt ct self items))"
proof (induction items arbitrary: self)
  case Nil
  show ?case by (simp add: extends_refl)
next
  case (Cons item items)
  obtain r self' where st: "container_step rt ct self item = (r, self')"
    by (cases "container_step rt ct self item")
  have e: "extends self self'"
    using container_step_extends [of self rt ct item] st by simp
  show ?case
  proof (cases r)
    case None
    with st have "snd (containers_loop rt ct self (item # items))
        = snd (containers_loop rt ct self' items)" by simp
    with e Cons.IH [of self'] show ?thesis by (metis extends_trans)
  next
    case (Some x)
    with st e show ?thesis by simp
  qed
qed

lemma collect_once_extends: "extends self (snd (collect_once rt now http_get self))"
  by (auto simp: collect_once_def Let_def extends_refl containers_loop_extends split: sum.splits)



lemma collect_once_seen_mono:
  "seen_samples self \<subseteq> seen_samples (snd (collect_once rt now http_get self))"
  using collect_once_extends [of self rt now http_get] by (simp add: extends_def)

lemma collect_loop_seen_mono:
  "seen_samples self \<subseteq> seen_samples (snd (snd (collect_loop rt ticks logged self)))"
proof (induction ticks arbitrary: logged self)
  case Nil
  show ?case by simp
next
  case (Cons t ticks)
  show ?case
  proof (cases "stop_event self")
    case True
    then show ?thesis by simp
  next
    case False
    obtain r self' where c: "collect_once rt (clock t) (endpoint t) self = (r, self')"
      by (cases "collect_once rt (clock t) (endpoint t) self")
    have 1: "seen_samples self \<subseteq> seen_samples self'"
      using collect_once_seen_mono [of self rt "clock t" "endpoint t"] c by simp
    have 2: "seen_samples self' \<subseteq> seen_samples (if stop_called t then stop self' else self')"
      by (simp add: stop_def)
    show ?thesis
      using False c 1 2
        Cons.IH [of "if stop_called t then stop self' else self'"
                    "case r of None \<Rightarrow> logged | Some e \<Rightarrow> logged @ [e]"]
      by (simp del: collect_loop.simps(2) add: collect_loop.simps(2) [of rt t ticks logged self])
  qed
qed


lemma stats_loop_append:
  "stats_loop rt ct cid sn im self (xs @ ys) =
     (case stats_loop rt ct cid sn im self xs of
        (Some e, self') \<Rightarrow> (Some e, self')
      | (None, self') \<Rightarrow> stats_loop rt ct cid sn im self' ys)"
  by (induction xs arbitrary: self) (auto split: prod.splits option.splits)


lemma base_url_raises_iff: "(\<exists>e. get_cadvisor_base_url address = Inl e) \<longleftrightarrow> address = []"
  by (simp add: get_cadvisor_base_url_def Let_def)

lemma collect_once_empty_address:
  "cadvisor_address self = [] \<Longrightarrow> \<not> stop_event self \<Longrightarrow>
     collect_once rt now http_get self = (Some ValueError, self)"
  by (simp add: collect_once_def get_cadvisor_base_url_def)

lemma collect_loop_empty_address:
  "cadvisor_address self = [] \<Longrightarrow> \<not> stop_event self \<Longrightarrow> list_all (\<lambda>t. \<not> stop_called t) ticks \<Longrightarrow>
     collect_loop rt ticks logged self
       = (Running, logged @ replicate (length ticks) ValueError, self)"
proof (induction ticks arbitrary: logged)
  case Nil
  then show ?case by simp
next
  case (Cons t ticks)
  then show ?case
    by (simp add: collect_once_empty_address replicate_app_Cons_same)
qed





text \<open>
  C9. The key is added to \<^verbatim>\<open>seen_samples\<close> before the row is built. When building
  the row raises, the sample's step ends with that exception, the key recorded and
  nothing enqueued; the loop over the samples and the loop over the containers end
  there with the same exception and state, whatever follows; the key stays in the set
  through every later pass of the polling loop; and every later sample with that key
  is skipped.
\<close>

theorem seen_before_row_is_built:
  assumes "sample_key rt cid s = Some k"
      and "k \<notin> seen_samples self"
      and "build_line rt ct (snd k) sn im s = Inl e"
  shows "sample_step rt ct cid sn im self s
           = (Some e, self\<lparr>seen_samples := insert k (seen_samples self)\<rparr>)
       \<and> (\<forall>self0 before rest.
             stats_loop rt ct cid sn im self0 before = (None, self) \<longrightarrow>
             stats_loop rt ct cid sn im self0 (before @ s # rest)
               = (Some e, self\<lparr>seen_samples := insert k (seen_samples self)\<rparr>))
       \<and> (\<forall>entry rest more.
             container_fields entry = Inr (sn, PList (s # rest), im) \<longrightarrow>
             containers_loop rt ct self ((cid, entry) # more)
               = (Some e, self\<lparr>seen_samples := insert k (seen_samples self)\<rparr>))
       \<and> (\<forall>ticks logged.
             k \<in> seen_samples (snd (snd (collect_loop rt ticks logged
                    (self\<lparr>seen_samples := insert k (seen_samples self)\<rparr>)))))
       \<and> (\<forall>self' s' ct' sn' im'.
             k \<in> seen_samples self' \<and> sample_key rt cid s' = Some k \<longrightarrow>
             sample_step rt ct' cid sn' im' self' s' = (None, self'))"
proof -
  have 1: "sample_step rt ct cid sn im self s
           = (Some e, self\<lparr>seen_samples := insert k (seen_samples self)\<rparr>)"
    unfolding sample_step_new [OF assms(1,2)] by (simp add: assms(3))
  have 2: "stats_loop rt ct cid sn im self0 (before @ s # rest)
               = (Some e, self\<lparr>seen_samples := insert k (seen_samples self)\<rparr>)"
    if "stats_loop rt ct cid sn im self0 before = (None, self)" for self0 before rest
    unfolding stats_loop_append using that 1 by simp
  have 3: "containers_loop rt ct self ((cid, entry) # more)
               = (Some e, self\<lparr>seen_samples := insert k (seen_samples self)\<rparr>)"
    if "container_fields entry = Inr (sn, PList (s # rest), im)" for entry rest more
    using that 1 by (simp add: container_step_def)
  have 4: "k \<in> seen_samples (snd (snd (collect_loop rt ticks logged
                    (self\<lparr>seen_samples := insert k (seen_samples self)\<rparr>))))"
    for ticks logged
    using collect_loop_seen_mono
      [of "self\<lparr>seen_samples := insert k (seen_samples self)\<rparr>" rt ticks logged]
    by auto
  have 5: "sample_step rt ct' cid sn' im' self' s' = (None, self')"
    if "k \<in> seen_samples self' \<and> sample_key rt cid s' = Some k" for self' s' ct' sn' im'
    using that by (simp add: sample_step_seen)
  from 1 2 3 4 5 show ?thesis by blast
qed

theorem seen_before_row_is_built_witness:
  "sample_key example_runtime ''c1'' example_sample_bad = Some (''c1'', 1704067200)
   \<and> (''c1'', 1704067200) \<notin> seen_samples (init ''localhost'' ''out'' 10)
   \<and> build_line example_runtime 1704067205 (snd (''c1'', 1704067200 :: int)) (PStr ''web'')
        (PStr ''nginx'') example_sample_bad = Inl ValueError
   \<and> container_fields (example_entry [example_sample_bad, example_sample_later])
       = Inr (PStr ''web'', PList [example_sample_bad, example_sample_later], PStr ''nginx'')
   \<and> containers_loop example_runtime 1704067205 (init ''localhost'' ''out'' 10)
        [(''c1'', example_entry [example_sample_bad, example_sample_later])]
       = (Some ValueError,
          (init ''localhost'' ''out'' 10)\<lparr>seen_samples := {(''c1'', 1704067200)}\<rparr>)"
proof -
  have h1: "sample_key example_runtime ''c1'' example_sample_bad = Some (''c1'', 1704067200)"
    by code_simp
  have h2: "(''c1'', 1704067200) \<notin> seen_samples (init ''localhost'' ''out'' 10)"
    by (simp add: init_def)
  have h3: "build_line example_runtime 1704067205 (snd (''c1'', 1704067200 :: int)) (PStr ''web'')
        (PStr ''nginx'') example_sample_bad = Inl ValueError"
    by code_simp
  have h4: "container_fields (example_entry [example_sample_bad, example_sample_later])
       = Inr (PStr ''web'', PList [example_sample_bad, example_sample_later], PStr ''nginx'')"
    by code_simp
  note t = seen_before_row_is_built [OF h1 h2 h3, THEN conjunct2, THEN conjunct2, THEN conjunct1,
      rule_format, OF h4, of "[]"]
  have s: "seen_samples (init ''localhost'' ''out'' 10) = {}"
    by (simp add: init_def)
  have c: "containers_loop example_runtime 1704067205 (init ''localhost'' ''out'' 10)
        [(''c1'', example_entry [example_sample_bad, example_sample_later])]
       = (Some ValueError,
          (init ''localhost'' ''out'' 10)\<lparr>seen_samples := {(''c1'', 1704067200)}\<rparr>)"
    using t unfolding s .
  from h1 h2 h3 h4 c show ?thesis by (intro conjI)
qed



text \<open>
  C4, as amended. \<^verbatim>\<open>get_cadvisor_base_url\<close> raises for the empty address and for no
  other. Constructing the collector checks nothing: it keeps the address and starts
  with the stop flag clear. With the empty address every collection raises
  \<^verbatim>\<open>ValueError\<close> and leaves the collector as it was, and the polling loop logs one
  \<^verbatim>\<open>ValueError\<close> for each pass and is still running as long as \<^verbatim>\<open>stop\<close> is not called.
\<close>

theorem empty_address_polls_and_fails:
  "((\<exists>e. get_cadvisor_base_url address = Inl e) \<longleftrightarrow> address = [])
   \<and> cadvisor_address (init address path interval) = address
   \<and> \<not> stop_event (init address path interval)
   \<and> (cadvisor_address self = [] \<and> \<not> stop_event self \<longrightarrow>
        collect_once rt now http_get self = (Some ValueError, self))
   \<and> (cadvisor_address self = [] \<and> \<not> stop_event self
        \<and> list_all (\<lambda>t. \<not> stop_called t) ticks \<longrightarrow>
        collect_loop rt ticks logged self
          = (Running, logged @ replicate (length ticks) ValueError, self))"
  using base_url_raises_iff [of address] collect_once_empty_address [of self rt now http_get]
    collect_loop_empty_address [of self ticks rt logged]
  by (simp add: init_def)

theorem empty_address_polls_and_fails_witness:
  "cadvisor_address (init [] ''out'' 10) = []
   \<and> \<not> stop_event (init [] ''out'' 10)
   \<and> list_all (\<lambda>t. \<not> stop_called t) [example_tick, example_tick]
   \<and> collect_loop example_runtime [example_tick, example_tick] [] (init [] ''out'' 10)
       = (Running, [] @ replicate (length [example_tick, example_tick]) ValueError,
          init [] ''out'' 10)"
proof -
  have h1: "cadvisor_address (init [] ''out'' 10) = []"
    by (simp add: init_def)
  have h2: "\<not> stop_event (init [] ''out'' 10)"
    by (simp add: init_def)
  have h3: "list_all (\<lambda>t. \<not> stop_called t) [example_tick, example_tick]"
    by (simp add: example_tick_def)
  note t = empty_address_polls_and_fails [where self = "init [] ''out'' 10"
      and ticks = "[example_tick, example_tick]" and rt = example_runtime and logged = "[]",
      THEN conjunct2, THEN conjunct2, THEN conjunct2, THEN conjunct2, rule_format]
  have c: "collect_loop example_runtime [example_tick, example_tick] [] (init [] ''out'' 10)
       = (Running, [] @ replicate (length [example_tick, example_tick]) ValueError,
          init [] ''out'' 10)"
    by (rule t) (intro conjI h1 h2 h3)
  from h1 h2 h3 c show ?thesis by (intro conjI)
qed

text \<open>
  The counterexample to C4 as stated: with the empty address the loop has made three
  passes, logged three \<^verbatim>\<open>ValueError\<close>s and is still running; and an address of
  blanks is no error at all.
\<close>

theorem empty_address_keeps_polling:
  "collect_loop example_runtime [example_tick, example_tick, example_tick] []
     (init [] ''out'' 10)
   = (Running, [ValueError, ValueError, ValueError], init [] ''out'' 10)
   \<and> get_cadvisor_base_url ''   '' = Inr ''http://:8080''"
  by code_simp

section \<open>Properties of the shutdown\<close>

lemma inv_start:
  "\<not> stop_event self \<Longrightarrow> write_queue self = [] \<Longrightarrow> inv rows (start self old rows)"
  by (simp add: inv_def start_def draining_def)

lemma inv_writer_step: "inv rows s \<Longrightarrow> inv rows (container_queue_writer_step s)"
  unfolding inv_def container_queue_writer_step_def draining_def
  by (cases "writer_thread s"; cases "write_queue s") (auto split: if_splits)

lemma inv_caller_step: "inv rows s \<Longrightarrow> caller_step s = Some s' \<Longrightarrow> inv rows s'"
  unfolding inv_def caller_step_def draining_def
  by (cases "caller s"; cases "pending s") (auto split: if_splits writer_pc.splits)

lemma inv_step: "step s s' \<Longrightarrow> inv rows s \<Longrightarrow> inv rows s'"
  by (induction rule: step.induct) (auto intro: inv_writer_step inv_caller_step)

lemma inv_steps: "step\<^sup>*\<^sup>* s s' \<Longrightarrow> inv rows s \<Longrightarrow> inv rows s'"
  by (induction rule: rtranclp_induct) (auto intro: inv_step)

lemma inv_done:
  assumes "inv rows s" "caller s = CDone"
  shows "csv s = csv_header @ concat rows"
proof -
  from assms have w: "writer_thread s = WDone"
    by (simp add: inv_def)
  with assms(1) have q: "concat (write_queue s) = []"
    unfolding inv_def by blast
  from assms have p: "pending s = []"
    by (simp add: inv_def)
  from assms(1) have "(if writer_thread s = WOpen then csv_header else csv s)
        @ in_hand (writer_thread s) @ concat (write_queue s) @ concat (pending s)
      = csv_header @ concat rows"
    unfolding inv_def by blast
  then show ?thesis
    unfolding q p w by simp
qed

lemma work_writer_step:
  "stop_event s \<Longrightarrow> writer_thread s \<noteq> WDone \<Longrightarrow> work (container_queue_writer_step s) < work s"
  unfolding work_def container_queue_writer_step_def
  by (cases "writer_thread s"; cases "write_queue s"; cases "caller s") auto

lemma work_caller_step:
  "caller_step s = Some s' \<Longrightarrow> work s' < work s"
  unfolding work_def caller_step_def
  by (cases "caller s"; cases "pending s") (auto split: if_splits)

lemma stop_event_step: "step s s' \<Longrightarrow> stop_event s \<Longrightarrow> stop_event s'"
  by (induction rule: step.induct)
     (auto simp: container_queue_writer_step_def caller_step_def
           split: writer_pc.splits caller_pc.splits list.splits if_splits)

lemma work_step: "step s s' \<Longrightarrow> stop_event s \<Longrightarrow> work s' < work s"
  by (induction rule: step.induct) (auto intro: work_writer_step work_caller_step)

lemma work_bound: "(step ^^ n) s s' \<Longrightarrow> stop_event s \<Longrightarrow> n + work s' \<le> work s \<and> stop_event s'"
proof (induction n arbitrary: s')
  case 0
  then show ?case by simp
next
  case (Suc n)
  then obtain m where m: "(step ^^ n) s m" "step m s'" by auto
  from Suc.IH [OF m(1) Suc.prems(2)] have i: "n + work m \<le> work s" "stop_event m" by simp_all
  from work_step [OF m(2) i(2)] stop_event_step [OF m(2) i(2)] i(1)
  show ?case by simp
qed

lemma no_step_done:
  assumes "\<And>s'. \<not> step s s'"
  shows "caller s = CDone"
proof (rule ccontr)
  assume n: "caller s \<noteq> CDone"
  have w: "writer_thread s = WDone"
    using assms step.writer by blast
  have "\<exists>s'. caller_step s = Some s'"
    using n w by (cases "caller s"; cases "pending s") (auto simp: caller_step_def)
  then show False
    using assms step.caller by blast
qed

lemma caller_steps_stop:
  assumes "caller s = CRun" "pending s = []"
  shows "\<exists>s1. caller_step s = Some s1 \<and> caller_step s1 = Some ((stop s)\<lparr>caller := CJoin\<rparr>)"
  using assms by (simp add: caller_step_def stop_def)

lemma run_steps: "step\<^sup>*\<^sup>* s (run sched s)"
proof (induction sched arbitrary: s)
  case Nil
  show ?case by simp
next
  case (Cons w sched)
  let ?m = "if w then (if writer_thread s = WDone then s else container_queue_writer_step s)
        else (case caller_step s of None \<Rightarrow> s | Some s' \<Rightarrow> s')"
  have "step\<^sup>*\<^sup>* s ?m"
    by (auto split: option.splits intro: step.intros)
  moreover have "step\<^sup>*\<^sup>* ?m (run sched ?m)"
    by (rule Cons.IH)
  ultimately show ?case by simp
qed

text \<open>
  C1. The caller puts its rows on the queue, calls \<^verbatim>\<open>stop\<close> and then \<^verbatim>\<open>join\<close>, while
  the writer runs, the two interleaved in any way. Whenever \<^verbatim>\<open>join\<close> has returned, the
  file is the header followed by the rows, each once and in order, whatever the file
  held before. \<^verbatim>\<open>join\<close> does return: a state in which neither thread can act is one in
  which it has returned, and once the stop flag is set every run has at most
  \<open>work s\<close> further actions.
\<close>

theorem drain_on_shutdown:
  assumes "\<not> stop_event self" and "write_queue self = []"
      and "step\<^sup>*\<^sup>* (start self old rows) s"
  shows "(caller s = CDone \<longrightarrow> csv s = csv_header @ concat rows)
       \<and> ((\<forall>s'. \<not> step s s') \<longrightarrow> caller s = CDone)
       \<and> (stop_event s \<longrightarrow> (\<forall>n s'. (step ^^ n) s s' \<longrightarrow> n \<le> work s))"
proof (intro conjI impI allI)
  have i: "inv rows s"
    using assms(3) inv_start [OF assms(1,2)] by (rule inv_steps)
  show "csv s = csv_header @ concat rows" if "caller s = CDone"
    using i that by (rule inv_done)
  show "caller s = CDone" if "\<forall>s'. \<not> step s s'"
    using that by (intro no_step_done) blast
  show "n \<le> work s" if "stop_event s" "(step ^^ n) s s'" for n s'
    using work_bound [OF that(2,1)] by simp
qed

theorem drain_on_shutdown_witness:
  "\<not> stop_event (init ''localhost'' ''out'' 10)
   \<and> write_queue (init ''localhost'' ''out'' 10) = []
   \<and> caller (run [True, False, True, True, False, True, False, True, True, True, True, False, False]
        (start (init ''localhost'' ''out'' 10) ''stale'' [''a'', ''b''])) = CDone
   \<and> csv (run [True, False, True, True, False, True, False, True, True, True, True, False, False]
        (start (init ''localhost'' ''out'' 10) ''stale'' [''a'', ''b'']))
      = csv_header @ concat [''a'', ''b'']"
proof -
  have h1: "\<not> stop_event (init ''localhost'' ''out'' 10)"
    by (simp add: init_def)
  have h2: "write_queue (init ''localhost'' ''out'' 10) = []"
    by (simp add: init_def)
  have h3: "step\<^sup>*\<^sup>* (start (init ''localhost'' ''out'' 10) ''stale'' [''a'', ''b''])
      (run [True, False, True, True, False, True, False, True, True, True, True, False, False]
        (start (init ''localhost'' ''out'' 10) ''stale'' [''a'', ''b'']))"
    by (rule run_steps)
  have h4: "caller (run [True, False, True, True, False, True, False, True, True, True, True, False, False]
        (start (init ''localhost'' ''out'' 10) ''stale'' [''a'', ''b''])) = CDone"
    by code_simp
  from drain_on_shutdown [OF h1 h2 h3, THEN conjunct1, rule_format, OF h4]
  have c: "csv (run [True, False, True, True, False, True, False, True, True, True, True, False, False]
        (start (init ''localhost'' ''out'' 10) ''stale'' [''a'', ''b'']))
      = csv_header @ concat [''a'', ''b'']" .
  from h1 h2 h4 c show ?thesis by (intro conjI)
qed

end
